theory Spec2Isabelle
  imports Main "HOL-Library.Extended_Nat"
begin

section \<open>Values of the host language\<close>

text \<open>
  The engine is the JavaScript class \<open>PageReplacementSimulator\<close>. A page identifier is
  what \<open>Number.parseInt\<close> returns: an integer, or the not-a-number value \<open>NaN\<close> when the
  token has no digits. \<open>Num n\<close> stands for the number with the integer value \<open>n\<close>. The
  host keeps it as a double, exact up to \<open>2 ^ 53\<close>; a longer digit string is rounded by
  the host and kept exact here. \<open>-0\<close> and \<open>0\<close> are the same page for every comparison
  the engine makes. A value that may be \<open>undefined\<close> is a \<open>number option\<close>, with \<open>None\<close>
  for \<open>undefined\<close>.
\<close>

datatype number = Num int | NaN

text \<open>The two error kinds the specification names. The source has no \<open>throw\<close>.\<close>

datatype error = ParseError | InvalidConfigurationError

text \<open>
  \<open>===\<close> and \<open>!==\<close> on numbers: \<open>NaN\<close> is not equal to itself. \<open>Array.includes\<close>
  compares with SameValueZero, under which \<open>NaN\<close> is found; \<open>Array.indexOf\<close> compares
  with \<open>===\<close> and answers \<open>-1\<close> when nothing is found.
\<close>

definition strict_eq :: "number \<Rightarrow> number \<Rightarrow> bool" where
  "strict_eq a b = (a = b \<and> a \<noteq> NaN)"

definition includes_page :: "number list \<Rightarrow> number \<Rightarrow> bool" where
  "includes_page xs v = (v \<in> set xs)"

fun indexOf_from :: "number list \<Rightarrow> number \<Rightarrow> nat \<Rightarrow> int" where
  "indexOf_from [] v i = - 1"
| "indexOf_from (x # xs) v i = (if strict_eq x v then int i else indexOf_from xs v (Suc i))"

fun indexOf :: "number list \<Rightarrow> number option \<Rightarrow> int" where
  "indexOf xs None = - 1"
| "indexOf xs (Some v) = indexOf_from xs v 0"

text \<open>
  \<open>arr[index] = v\<close> with the index that \<open>indexOf\<close> returned. At \<open>-1\<close> the host stores
  \<open>v\<close> under the property name \<open>"-1"\<close>, which is no element of the array: its length,
  \<open>includes\<close>, \<open>indexOf\<close>, iteration and the spread copy do not see it, and the engine
  never reads it back.
\<close>

definition assign_index :: "number list \<Rightarrow> int \<Rightarrow> number \<Rightarrow> number list" where
  "assign_index xs index v = (if index < 0 then xs else xs[nat index := v])"

text \<open>\<open>Array.shift\<close>: removes and returns the first element, \<open>undefined\<close> on an empty array.\<close>

fun shift :: "number list \<Rightarrow> number option \<times> number list" where
  "shift [] = (None, [])"
| "shift (x # xs) = (Some x, xs)"

subsection \<open>Parsing the reference string\<close>

text \<open>
  Strings are lists of code units below 256. \<open>String.split(",")\<close> cuts at every comma
  and returns one token more than there are commas, so the empty string gives one
  empty token.
\<close>

fun split_on :: "char \<Rightarrow> string \<Rightarrow> string list" where
  "split_on sep [] = [[]]"
| "split_on sep (c # cs) =
     (if c = sep then [] # split_on sep cs
      else (case split_on sep cs of [] \<Rightarrow> [[c]] | t # ts \<Rightarrow> (c # t) # ts))"

definition isWhiteSpace :: "char \<Rightarrow> bool" where
  "isWhiteSpace c = (c \<in> set [CHR 0x09, CHR 0x0A, CHR 0x0B, CHR 0x0C, CHR 0x0D, CHR 0x20, CHR 0xA0])"

definition trim :: "string \<Rightarrow> string" where
  "trim s = rev (dropWhile isWhiteSpace (rev (dropWhile isWhiteSpace s)))"

definition digit_value :: "char \<Rightarrow> nat" where
  "digit_value c =
     (let k = (of_char c :: nat) in
      if 48 \<le> k \<and> k \<le> 57 then k - 48
      else if 97 \<le> k \<and> k \<le> 102 then k - 87
      else if 65 \<le> k \<and> k \<le> 70 then k - 55
      else 36)"

definition is_digit :: "nat \<Rightarrow> char \<Rightarrow> bool" where
  "is_digit radix c = (digit_value c < radix)"

text \<open>
  \<open>Number.parseInt(s)\<close> with no radix: skip leading white space, read an optional sign,
  switch to radix 16 after a \<open>0x\<close> or \<open>0X\<close> prefix, read the longest run of digits and
  ignore what follows it. With no digit the result is \<open>NaN\<close>.
\<close>

definition parseInt :: "string \<Rightarrow> number" where
  "parseInt inputString =
     (let s1 = dropWhile isWhiteSpace inputString;
          sgn = (case s1 of c # _ \<Rightarrow> if c = CHR ''-'' then - 1 else (1::int) | [] \<Rightarrow> 1);
          s2 = (case s1 of c # r \<Rightarrow> if c = CHR ''-'' \<or> c = CHR ''+'' then r else s1 | [] \<Rightarrow> s1);
          hex = (case s2 of a # b # _ \<Rightarrow> a = CHR ''0'' \<and> (b = CHR ''x'' \<or> b = CHR ''X'') | _ \<Rightarrow> False);
          radix = (if hex then 16 else 10);
          s3 = (if hex then drop 2 s2 else s2);
          z = takeWhile (is_digit radix) s3
      in if z = [] then NaN
         else Num (sgn * int (foldl (\<lambda>acc c. acc * radix + digit_value c) 0 z)))"

section \<open>The simulator\<close>

text \<open>
  \<open>dataStructures\<close> is one object whose fields \<open>initializeAlgorithm\<close> creates for the
  selected algorithm only; every later access is inside the \<open>switch\<close> case of that same
  algorithm, so a field the object lacks is never read. The record has all five fields
  and leaves the ones of the other algorithms at their initial values. The two objects
  used as dictionaries are maps keyed by the page (the host keys them by the page's
  string, which is one string per number, \<open>"NaN"\<close> included). \<open>clockPointer\<close> is a
  number: \<open>None\<close> is \<open>NaN\<close>, which \<open>% 0\<close> produces. The frame count \<open>numFrames\<close> is an
  integer, of either sign; the counters and the step index count up from 0.
\<close>

record data_structures =
  queue :: "number list"
  recencyList :: "number list"
  futureReferences :: "number \<rightharpoonup> nat list"
  referenceFlags :: "number \<rightharpoonup> bool"
  clockPointer :: "nat option"

text \<open>
  One entry of \<open>history\<close>. The source names the last two fields \<open>frames\<close> and
  \<open>dataStructures\<close>; they are value copies. The copy of the data structures goes
  through JSON in the source, which is the identity on this record but for \<open>NaN\<close>,
  written as \<open>null\<close>.
\<close>

record StepRecord =
  step :: nat
  page :: number
  isHit :: bool
  frames_copy :: "number list"
  dataStructures_copy :: data_structures

record simulator =
  referenceString :: "number list"
  numFrames :: int
  algorithm :: string
  frames :: "number list"
  pageFaults :: nat
  pageHits :: nat
  history :: "StepRecord list"
  dataStructures :: data_structures

definition calculateFutureReferences :: "number list \<Rightarrow> (number \<rightharpoonup> nat list)" where
  "calculateFutureReferences refs =
     foldl (\<lambda>futureRefs i.
              let page = refs ! i
              in futureRefs(page \<mapsto> (case futureRefs page of None \<Rightarrow> [] | Some l \<Rightarrow> l) @ [i]))
           Map.empty [0..<length refs]"

definition initializeAlgorithm :: "simulator \<Rightarrow> simulator" where
  "initializeAlgorithm s =
     (if algorithm s = ''fifo'' then
        s\<lparr>dataStructures := (dataStructures s)\<lparr>queue := []\<rparr>\<rparr>
      else if algorithm s = ''lru'' then
        s\<lparr>dataStructures := (dataStructures s)\<lparr>recencyList := []\<rparr>\<rparr>
      else if algorithm s = ''optimal'' then
        s\<lparr>dataStructures := (dataStructures s)
            \<lparr>futureReferences := calculateFutureReferences (referenceString s)\<rparr>\<rparr>
      else if algorithm s = ''clock'' then
        s\<lparr>dataStructures := (dataStructures s)\<lparr>referenceFlags := Map.empty, clockPointer := Some 0\<rparr>\<rparr>
      else s)"

definition empty_dataStructures :: data_structures where
  "empty_dataStructures =
     \<lparr>queue = [], recencyList = [], futureReferences = Map.empty,
      referenceFlags = Map.empty, clockPointer = Some 0\<rparr>"

text \<open>
  The constructor parses each comma-separated token with \<open>parseInt\<close> after \<open>trim\<close>,
  stores the frame count and the selector as they come, and sets up the data
  structures. It has no failing branch.
\<close>

definition constructor :: "string \<Rightarrow> int \<Rightarrow> string \<Rightarrow> error + simulator" where
  "constructor referenceStringInput numFramesInput algorithmInput =
     Inr (initializeAlgorithm
       \<lparr>referenceString = map (\<lambda>x. parseInt (trim x)) (split_on CHR '','' referenceStringInput),
        numFrames = numFramesInput,
        algorithm = algorithmInput,
        frames = [],
        pageFaults = 0,
        pageHits = 0,
        history = [],
        dataStructures = empty_dataStructures\<rparr>)"

subsection \<open>Choosing the page to replace\<close>

text \<open>
  \<open>selectOptimalPage\<close>: \<open>nextIndex\<close> is the first recorded index after the current
  step, or infinity when \<open>find\<close> returns \<open>undefined\<close> (or the falsy index 0).
\<close>

definition nextIndex :: "simulator \<Rightarrow> nat \<Rightarrow> number \<Rightarrow> enat" where
  "nextIndex s currentStep pg =
     (let futureIndices = (case futureReferences (dataStructures s) pg of None \<Rightarrow> [] | Some l \<Rightarrow> l)
      in case find (\<lambda>idx. idx > currentStep) futureIndices of
           None \<Rightarrow> \<infinity>
         | Some idx \<Rightarrow> if idx = 0 then \<infinity> else enat idx)"

definition selectOptimalPage :: "simulator \<Rightarrow> nat \<Rightarrow> number option" where
  "selectOptimalPage s currentStep =
     fst (foldl (\<lambda>(farthestPage, farthestIndex) pg.
                   if nextIndex s currentStep pg > farthestIndex
                   then (Some pg, nextIndex s currentStep pg)
                   else (farthestPage, farthestIndex))
                (case frames s of [] \<Rightarrow> None | p # _ \<Rightarrow> Some p, enat currentStep)
                (frames s))"

text \<open>
  \<open>selectClockPage\<close>: \<open>frame_at\<close> is the read \<open>frames[clockPointer]\<close>, \<open>undefined\<close> out of
  range; \<open>advance\<close> is \<open>(clockPointer + 1) % frames.length\<close>. The loop runs on the frames,
  the flags and the pointer.
\<close>

definition frame_at :: "number list \<Rightarrow> nat option \<Rightarrow> number option" where
  "frame_at fs ptr =
     (case ptr of None \<Rightarrow> None | Some i \<Rightarrow> if i < length fs then Some (fs ! i) else None)"

definition advance :: "nat option \<Rightarrow> nat \<Rightarrow> nat option" where
  "advance ptr n =
     (case ptr of None \<Rightarrow> None | Some i \<Rightarrow> if n = 0 then None else Some ((i + 1) mod n))"

function clock_loop ::
  "number list \<Rightarrow> (number \<rightharpoonup> bool) \<Rightarrow> nat option \<Rightarrow> number option \<times> (number \<rightharpoonup> bool) \<times> nat option"
where
  "clock_loop fs flags ptr =
     (case frame_at fs ptr of
        None \<Rightarrow> (None, flags, advance ptr (length fs))
      | Some pg \<Rightarrow>
          if flags pg = Some True
          then clock_loop fs (flags(pg \<mapsto> False)) (advance ptr (length fs))
          else (Some pg, flags, advance ptr (length fs)))"
  by pat_completeness auto
termination
proof (relation "measure (\<lambda>(fs, flags, ptr). length (filter (\<lambda>p. flags p = Some True) fs))")
  show "wf (measure (\<lambda>(fs, flags, ptr). length (filter (\<lambda>p. flags p = Some True) fs)))"
    by simp
next
  fix fs :: "number list" and flags :: "number \<rightharpoonup> bool" and ptr :: "nat option" and pg
  assume at: "frame_at fs ptr = Some pg" and set: "flags pg = Some True"
  from at have mem: "pg \<in> set fs"
    by (auto simp: frame_at_def split: option.splits if_splits)
  have "length (filter (\<lambda>p. (flags(pg \<mapsto> False)) p = Some True) xs)
      < length (filter (\<lambda>p. flags p = Some True) xs) \<and>
      length (filter (\<lambda>p. (flags(pg \<mapsto> False)) p = Some True) ys)
      \<le> length (filter (\<lambda>p. flags p = Some True) ys)" if "pg \<in> set xs" for xs ys
  proof -
    have le: "length (filter (\<lambda>p. (flags(pg \<mapsto> False)) p = Some True) zs)
      \<le> length (filter (\<lambda>p. flags p = Some True) zs)" for zs
      by (induction zs) auto
    from that have "length (filter (\<lambda>p. (flags(pg \<mapsto> False)) p = Some True) xs)
      < length (filter (\<lambda>p. flags p = Some True) xs)"
    proof (induction xs)
      case Nil
      then show ?case by simp
    next
      case (Cons x xs)
      show ?case
      proof (cases "x = pg")
        case True
        with set le [of xs] show ?thesis by simp
      next
        case False
        with Cons show ?thesis by auto
      qed
    qed
    with le show ?thesis by blast
  qed
  from this [OF mem, of fs]
  have "length (filter (\<lambda>p. (flags(pg \<mapsto> False)) p = Some True) fs)
      < length (filter (\<lambda>p. flags p = Some True) fs)"
    by blast
  then show "((fs, flags(pg \<mapsto> False), advance ptr (length fs)), (fs, flags, ptr))
      \<in> measure (\<lambda>(fs, flags, ptr). length (filter (\<lambda>p. flags p = Some True) fs))"
    by simp
qed

text \<open>The defining equation of the loop is applied by hand, one iteration at a time.\<close>

declare clock_loop.simps [simp del]

definition selectClockPage :: "simulator \<Rightarrow> number option \<times> simulator" where
  "selectClockPage s =
     (case clock_loop (frames s) (referenceFlags (dataStructures s)) (clockPointer (dataStructures s)) of
        (pg, flags, ptr) \<Rightarrow>
          (pg, s\<lparr>dataStructures := (dataStructures s)\<lparr>referenceFlags := flags, clockPointer := ptr\<rparr>\<rparr>))"

text \<open>
  \<open>selectPageToReplace\<close> returns the page and the simulator as the call leaves it
  (\<open>shift\<close> and the clock scan change the data structures). With a selector that no
  \<open>case\<close> matches, the \<open>switch\<close> falls through and the result is \<open>undefined\<close>.
\<close>

definition selectPageToReplace :: "simulator \<Rightarrow> nat \<Rightarrow> number option \<times> simulator" where
  "selectPageToReplace s currentStep =
     (if algorithm s = ''fifo'' then
        (case shift (queue (dataStructures s)) of
           (v, q) \<Rightarrow> (v, s\<lparr>dataStructures := (dataStructures s)\<lparr>queue := q\<rparr>\<rparr>))
      else if algorithm s = ''lru'' then
        (case shift (recencyList (dataStructures s)) of
           (v, l) \<Rightarrow> (v, s\<lparr>dataStructures := (dataStructures s)\<lparr>recencyList := l\<rparr>\<rparr>))
      else if algorithm s = ''optimal'' then (selectOptimalPage s currentStep, s)
      else if algorithm s = ''clock'' then selectClockPage s
      else (None, s))"

definition updateDataStructures :: "simulator \<Rightarrow> number \<Rightarrow> nat \<Rightarrow> bool \<Rightarrow> simulator" where
  "updateDataStructures s pageNumber stepIndex hit =
     (if algorithm s = ''fifo'' then
        (if \<not> hit
         then s\<lparr>dataStructures := (dataStructures s)\<lparr>queue := queue (dataStructures s) @ [pageNumber]\<rparr>\<rparr>
         else s)
      else if algorithm s = ''lru'' then
        s\<lparr>dataStructures := (dataStructures s)
            \<lparr>recencyList :=
               filter (\<lambda>p. \<not> strict_eq p pageNumber) (recencyList (dataStructures s)) @ [pageNumber]\<rparr>\<rparr>
      else if algorithm s = ''clock'' then
        s\<lparr>dataStructures := (dataStructures s)
            \<lparr>referenceFlags := (referenceFlags (dataStructures s))(pageNumber \<mapsto> True)\<rparr>\<rparr>
      else s)"

subsection \<open>One reference, and the whole run\<close>

definition processPage :: "simulator \<Rightarrow> number \<Rightarrow> nat \<Rightarrow> simulator" where
  "processPage s pageNumber stepIndex =
     (let hit = includes_page (frames s) pageNumber;
          s1 = (if hit then
                  updateDataStructures (s\<lparr>pageHits := pageHits s + 1\<rparr>) pageNumber stepIndex True
                else
                  let s2 = s\<lparr>pageFaults := pageFaults s + 1\<rparr>;
                      s3 = (if int (length (frames s2)) < numFrames s2 then
                              s2\<lparr>frames := frames s2 @ [pageNumber]\<rparr>
                            else
                              (case selectPageToReplace s2 stepIndex of
                                 (pageToReplace, s4) \<Rightarrow>
                                   s4\<lparr>frames :=
                                        assign_index (frames s4) (indexOf (frames s4) pageToReplace)
                                          pageNumber\<rparr>))
                  in updateDataStructures s3 pageNumber stepIndex False)
      in s1\<lparr>history := history s1 @
              [\<lparr>step = stepIndex, page = pageNumber, isHit = hit,
                frames_copy = frames s1, dataStructures_copy = dataStructures s1\<rparr>]\<rparr>)"

text \<open>
  \<open>simulate\<close> runs \<open>processPage\<close> on the references \<open>0, 1, ...\<close> in turn and returns the
  history; \<open>simulate_steps s n\<close> is the simulator after the first \<open>n\<close> iterations of
  that loop. The second component of \<open>simulate\<close> is the simulator the call leaves behind.
\<close>

definition simulate_steps :: "simulator \<Rightarrow> nat \<Rightarrow> simulator" where
  "simulate_steps s n = foldl (\<lambda>s i. processPage s (referenceString s ! i) i) s [0..<n]"

definition simulate :: "simulator \<Rightarrow> StepRecord list \<times> simulator" where
  "simulate s = (let s' = simulate_steps s (length (referenceString s)) in (history s', s'))"

text \<open>
  \<open>getStatistics\<close>. The hit ratio is the number \<open>0\<close> when nothing was processed and
  otherwise the string that \<open>toFixed(2)\<close> makes of the double \<open>(pageHits / total) * 100\<close>;
  \<open>ToFixed2 h t\<close> stands for that string for \<open>h\<close> hits out of \<open>t\<close> references. The source
  names the first two fields \<open>pageFaults\<close> and \<open>pageHits\<close>.
\<close>

datatype hit_ratio = NumberZero | ToFixed2 nat nat

record statistics =
  stat_pageFaults :: nat
  stat_pageHits :: nat
  hitRatio :: hit_ratio
  totalReferences :: nat

definition getStatistics :: "simulator \<Rightarrow> statistics" where
  "getStatistics s =
     (let total = pageFaults s + pageHits s
      in \<lparr>stat_pageFaults = pageFaults s,
          stat_pageHits = pageHits s,
          hitRatio = (if total > 0 then ToFixed2 (pageHits s) total else NumberZero),
          totalReferences = total\<rparr>)"

text \<open>
  The page \<open>processPage\<close> gets from \<open>selectPageToReplace\<close> on a fault with no free frame
  (the call is made after the fault counter went up).
\<close>

definition victim :: "simulator \<Rightarrow> nat \<Rightarrow> number option" where
  "victim s stepIndex = fst (selectPageToReplace (s\<lparr>pageFaults := pageFaults s + 1\<rparr>) stepIndex)"

text \<open>The simulator as that call of \<open>selectPageToReplace\<close> leaves it.\<close>

definition after_selection :: "simulator \<Rightarrow> nat \<Rightarrow> simulator" where
  "after_selection s stepIndex = snd (selectPageToReplace (s\<lparr>pageFaults := pageFaults s + 1\<rparr>) stepIndex)"

section \<open>Notions used to state the claims\<close>

text \<open>
  A token is an integer when it is a nonempty run of decimal digits after an optional
  sign. \<open>starts_with_digit\<close> is the weaker condition under which \<open>parseInt\<close> finds a
  number: a decimal digit follows the optional sign.
\<close>

definition is_integer_token :: "string \<Rightarrow> bool" where
  "is_integer_token t =
     (let d = (case t of c # r \<Rightarrow> if c = CHR ''-'' \<or> c = CHR ''+'' then r else t | [] \<Rightarrow> [])
      in d \<noteq> [] \<and> list_all (is_digit 10) d)"

definition starts_with_digit :: "string \<Rightarrow> bool" where
  "starts_with_digit t =
     (case (case t of c # r \<Rightarrow> if c = CHR ''-'' \<or> c = CHR ''+'' then r else t | [] \<Rightarrow> []) of
        [] \<Rightarrow> False
      | d # _ \<Rightarrow> is_digit 10 d)"

text \<open>The four selectors the \<open>switch\<close> statements know.\<close>

definition known_algorithm :: "string \<Rightarrow> bool" where
  "known_algorithm a = (a \<in> set [''fifo'', ''lru'', ''optimal'', ''clock''])"


subsection \<open>Optimal: the next occurrence of a page\<close>

text \<open>
  In the words of the specification: the next occurrence of a page is its first index
  in the reference sequence strictly greater than the current step index, and infinity
  when the page never recurs. \<open>first_farthest refs i fs k\<close> says that slot \<open>k\<close> of the
  frames holds a page whose next occurrence is largest, and that no earlier slot holds
  one as large.
\<close>

definition next_occurrence :: "number list \<Rightarrow> nat \<Rightarrow> number \<Rightarrow> enat" where
  "next_occurrence refs i p =
     (case find (\<lambda>k. i < k \<and> refs ! k = p) [0..<length refs] of
        None \<Rightarrow> \<infinity>
      | Some k \<Rightarrow> enat k)"

definition first_farthest :: "number list \<Rightarrow> nat \<Rightarrow> number list \<Rightarrow> nat \<Rightarrow> bool" where
  "first_farthest refs i fs k =
     (k < length fs
      \<and> list_all (\<lambda>j. next_occurrence refs i (fs ! j) \<le> next_occurrence refs i (fs ! k)) [0..<length fs]
      \<and> list_all (\<lambda>j. next_occurrence refs i (fs ! j) < next_occurrence refs i (fs ! k)) [0..<k])"

subsection \<open>Clock: the scan, counted\<close>

text \<open>
  \<open>clock_within n\<close> is the loop of \<open>selectClockPage\<close> cut off after \<open>n\<close> inspections:
  \<open>None\<close> when the loop has not returned by then. \<open>slot fs ptr t\<close> is the slot under the
  pointer after \<open>t\<close> advances, \<open>inspected fs ptr k\<close> the pages of the first \<open>k\<close> slots
  the scan visits, and \<open>clear_flags flags ps\<close> the flags with those of \<open>ps\<close> cleared.
\<close>

fun clock_within ::
  "nat \<Rightarrow> number list \<Rightarrow> (number \<rightharpoonup> bool) \<Rightarrow> nat option
     \<Rightarrow> (number option \<times> (number \<rightharpoonup> bool) \<times> nat option) option"
where
  "clock_within 0 fs flags ptr = None"
| "clock_within (Suc n) fs flags ptr =
     (case frame_at fs ptr of
        None \<Rightarrow> Some (None, flags, advance ptr (length fs))
      | Some pg \<Rightarrow>
          if flags pg = Some True
          then clock_within n fs (flags(pg \<mapsto> False)) (advance ptr (length fs))
          else Some (Some pg, flags, advance ptr (length fs)))"

definition slot :: "number list \<Rightarrow> nat \<Rightarrow> nat \<Rightarrow> nat" where
  "slot fs ptr t = (ptr + t) mod length fs"

definition inspected :: "number list \<Rightarrow> nat \<Rightarrow> nat \<Rightarrow> number list" where
  "inspected fs ptr k = map (\<lambda>t. fs ! slot fs ptr t) [0..<k]"

definition clear_flags :: "(number \<rightharpoonup> bool) \<Rightarrow> number list \<Rightarrow> (number \<rightharpoonup> bool)" where
  "clear_flags flags ps = (\<lambda>p. if p \<in> set ps then Some False else flags p)"

text \<open>What holds of the frames and the pointer throughout a Clock run.\<close>

definition clock_inv :: "simulator \<Rightarrow> bool" where
  "clock_inv s =
     (distinct (frames s)
      \<and> (case clockPointer (dataStructures s) of
            None \<Rightarrow> False
          | Some ptr \<Rightarrow> ptr = 0 \<or> ptr < length (frames s)))"

subsection \<open>FIFO and LRU: order of insertion, order of access\<close>

text \<open>
  \<open>last_position Q h\<close> is the position of the last history entry that satisfies \<open>Q\<close>.
  A page was loaded at its last fault and accessed at its last reference.
  \<open>in_order pos ps\<close>: every page of \<open>ps\<close> has a position and the positions increase
  strictly along the list.
\<close>

definition last_position :: "(StepRecord \<Rightarrow> bool) \<Rightarrow> StepRecord list \<Rightarrow> nat option" where
  "last_position Q h = find (\<lambda>k. Q (h ! k)) (rev [0..<length h])"

definition loaded_at :: "StepRecord list \<Rightarrow> number \<Rightarrow> nat option" where
  "loaded_at h p = last_position (\<lambda>e. page e = p \<and> \<not> isHit e) h"

definition accessed_at :: "StepRecord list \<Rightarrow> number \<Rightarrow> nat option" where
  "accessed_at h p = last_position (\<lambda>e. page e = p) h"

definition before :: "(number \<Rightarrow> nat option) \<Rightarrow> number \<Rightarrow> number \<Rightarrow> bool" where
  "before pos p q =
     (case pos p of None \<Rightarrow> False | Some a \<Rightarrow> (case pos q of None \<Rightarrow> False | Some b \<Rightarrow> a < b))"

definition in_order :: "(number \<Rightarrow> nat option) \<Rightarrow> number list \<Rightarrow> bool" where
  "in_order pos ps = (list_all (\<lambda>p. pos p \<noteq> None) ps \<and> sorted_wrt (before pos) ps)"

text \<open>What holds of the queue and of the recency list throughout a run.\<close>

definition fifo_inv :: "simulator \<Rightarrow> bool" where
  "fifo_inv s =
     (set (queue (dataStructures s)) = set (frames s)
      \<and> distinct (queue (dataStructures s))
      \<and> distinct (frames s)
      \<and> NaN \<notin> set (frames s)
      \<and> in_order (loaded_at (history s)) (queue (dataStructures s)))"

definition lru_inv :: "simulator \<Rightarrow> bool" where
  "lru_inv s =
     (set (recencyList (dataStructures s)) = set (frames s)
      \<and> distinct (recencyList (dataStructures s))
      \<and> distinct (frames s)
      \<and> NaN \<notin> set (frames s)
      \<and> in_order (accessed_at (history s)) (recencyList (dataStructures s)))"

subsection \<open>Demand paging in general\<close>

text \<open>
  \<open>simulate_from s i\<close> is the rest of the loop of \<open>simulate\<close>, from reference \<open>i\<close> on.
  \<open>nxt p rs\<close> is the position of the first \<open>p\<close> in \<open>rs\<close>, infinity when there is none.
\<close>

definition simulate_from :: "simulator \<Rightarrow> nat \<Rightarrow> simulator" where
  "simulate_from s i =
     foldl (\<lambda>s i. processPage s (referenceString s ! i) i) s [i..<length (referenceString s)]"

fun nxt :: "number \<Rightarrow> number list \<Rightarrow> enat" where
  "nxt p [] = \<infinity>"
| "nxt p (r # rs) = (if r = p then 0 else eSuc (nxt p rs))"

text \<open>
  \<open>paging_run F S rs n\<close>: starting with the set \<open>S\<close> of resident pages and \<open>F\<close> frames, the
  references \<open>rs\<close> can be served with \<open>n\<close> faults by loading a page only when it is
  referenced and absent, into a free frame while there is one and in place of some
  resident page otherwise. Every policy of the engine makes such a run; they differ
  in the page they replace.
\<close>

inductive paging_run :: "int \<Rightarrow> number set \<Rightarrow> number list \<Rightarrow> nat \<Rightarrow> bool" where
  finished: "paging_run F S [] 0"
| hit: "r \<in> S \<Longrightarrow> paging_run F S rs n \<Longrightarrow> paging_run F S (r # rs) n"
| load: "r \<notin> S \<Longrightarrow> int (card S) < F \<Longrightarrow> paging_run F (insert r S) rs n
          \<Longrightarrow> paging_run F S (r # rs) (Suc n)"
| evict: "r \<notin> S \<Longrightarrow> \<not> int (card S) < F \<Longrightarrow> v \<in> S \<Longrightarrow> paging_run F (insert r (S - {v})) rs n
          \<Longrightarrow> paging_run F S (r # rs) (Suc n)"

code_pred paging_run .

text \<open>What holds throughout a FIFO, LRU or Clock run on integer references.\<close>

definition demand_inv :: "simulator \<Rightarrow> bool" where
  "demand_inv s =
     (1 \<le> numFrames s \<and> distinct (frames s) \<and> NaN \<notin> set (frames s)
      \<and> (algorithm s = ''fifo'' \<and> fifo_inv s
           \<or> algorithm s = ''lru'' \<and> lru_inv s
           \<or> algorithm s = ''clock'' \<and> clock_inv s))"
section \<open>Basic facts about one step and about the loop\<close>


lemma updateDataStructures_fields [simp]:
  "frames (updateDataStructures s p i h) = frames s"
  "pageFaults (updateDataStructures s p i h) = pageFaults s"
  "pageHits (updateDataStructures s p i h) = pageHits s"
  "history (updateDataStructures s p i h) = history s"
  "referenceString (updateDataStructures s p i h) = referenceString s"
  "numFrames (updateDataStructures s p i h) = numFrames s"
  "algorithm (updateDataStructures s p i h) = algorithm s"
  by (simp_all add: updateDataStructures_def)

lemma selectClockPage_fields [simp]:
  "frames (snd (selectClockPage s)) = frames s"
  "pageFaults (snd (selectClockPage s)) = pageFaults s"
  "pageHits (snd (selectClockPage s)) = pageHits s"
  "history (snd (selectClockPage s)) = history s"
  "referenceString (snd (selectClockPage s)) = referenceString s"
  "numFrames (snd (selectClockPage s)) = numFrames s"
  "algorithm (snd (selectClockPage s)) = algorithm s"
  by (simp_all add: selectClockPage_def split: prod.splits)

lemma selectPageToReplace_fields [simp]:
  "frames (snd (selectPageToReplace s i)) = frames s"
  "pageFaults (snd (selectPageToReplace s i)) = pageFaults s"
  "pageHits (snd (selectPageToReplace s i)) = pageHits s"
  "history (snd (selectPageToReplace s i)) = history s"
  "referenceString (snd (selectPageToReplace s i)) = referenceString s"
  "numFrames (snd (selectPageToReplace s i)) = numFrames s"
  "algorithm (snd (selectPageToReplace s i)) = algorithm s"
  by (simp_all add: selectPageToReplace_def split: prod.splits)

lemma length_assign_index [simp]: "length (assign_index xs k v) = length xs"
  by (simp add: assign_index_def)


lemma processPage_frames:
  "frames (processPage s p i) =
     (if p \<in> set (frames s) then frames s
      else if int (length (frames s)) < numFrames s then frames s @ [p]
      else assign_index (frames s) (indexOf (frames s) (victim s i)) p)"
  by (simp add: processPage_def Let_def includes_page_def case_prod_beta victim_def)

lemma processPage_counters:
  "pageHits (processPage s p i) = (if p \<in> set (frames s) then pageHits s + 1 else pageHits s)"
  "pageFaults (processPage s p i) = (if p \<in> set (frames s) then pageFaults s else pageFaults s + 1)"
  by (simp_all add: processPage_def Let_def includes_page_def case_prod_beta)

lemma processPage_config [simp]:
  "referenceString (processPage s p i) = referenceString s"
  "numFrames (processPage s p i) = numFrames s"
  "algorithm (processPage s p i) = algorithm s"
  by (simp_all add: processPage_def Let_def includes_page_def case_prod_beta)

lemma processPage_history:
  "history (processPage s p i) = history s @
     [\<lparr>step = i, page = p, isHit = (p \<in> set (frames s)),
       frames_copy = frames (processPage s p i),
       dataStructures_copy = dataStructures (processPage s p i)\<rparr>]"
  by (simp add: processPage_def Let_def includes_page_def case_prod_beta)


lemma simulate_steps_0 [simp]: "simulate_steps s 0 = s"
  by (simp add: simulate_steps_def)

lemma simulate_steps_config [simp]:
  "referenceString (simulate_steps s n) = referenceString s"
  "numFrames (simulate_steps s n) = numFrames s"
  "algorithm (simulate_steps s n) = algorithm s"
  by (induction n) (simp_all add: simulate_steps_def)

lemma simulate_steps_Suc:
  "simulate_steps s (Suc n) = processPage (simulate_steps s n) (referenceString s ! n) n"
  using simulate_steps_config(1) [of s n] by (simp add: simulate_steps_def)

lemma initializeAlgorithm_fields [simp]:
  "frames (initializeAlgorithm s) = frames s"
  "pageFaults (initializeAlgorithm s) = pageFaults s"
  "pageHits (initializeAlgorithm s) = pageHits s"
  "history (initializeAlgorithm s) = history s"
  "referenceString (initializeAlgorithm s) = referenceString s"
  "numFrames (initializeAlgorithm s) = numFrames s"
  "algorithm (initializeAlgorithm s) = algorithm s"
  by (simp_all add: initializeAlgorithm_def)

lemma constructor_fields:
  assumes "constructor inp F alg = Inr s"
  shows "frames s = []" "pageFaults s = 0" "pageHits s = 0" "history s = []"
    "numFrames s = F" "algorithm s = alg"
    "referenceString s = map (\<lambda>x. parseInt (trim x)) (split_on CHR '','' inp)"
  using assms by (auto simp: constructor_def)

lemma simulate_steps_counters:
  "pageHits (simulate_steps s n) + pageFaults (simulate_steps s n) = pageHits s + pageFaults s + n"
  by (induction n) (simp_all add: simulate_steps_Suc processPage_counters)

lemma simulate_steps_history_length:
  "length (history (simulate_steps s n)) = length (history s) + n"
  by (induction n) (simp_all add: simulate_steps_Suc processPage_history)


section \<open>Claims\<close>

text \<open>
  C1. After each processed reference the hit count plus the fault count is the number
  of entries of the history, which is the number of references processed; when
  \<open>simulate\<close> returns, the sum and the length of the returned history are the length of
  the parsed reference sequence.
\<close>

theorem hits_plus_faults_count_steps:
  assumes "constructor referenceStringInput numFramesInput algorithmInput = Inr s"
    and "n \<le> length (referenceString s)"
  shows "pageHits (simulate_steps s n) + pageFaults (simulate_steps s n)
           = length (history (simulate_steps s n))
       \<and> length (history (simulate_steps s n)) = n
       \<and> pageHits (snd (simulate s)) + pageFaults (snd (simulate s)) = length (referenceString s)
       \<and> length (fst (simulate s)) = length (referenceString s)
       \<and> referenceString (snd (simulate s)) = referenceString s"
  using constructor_fields [OF assms(1)]
  by (simp add: simulate_steps_counters simulate_steps_history_length simulate_def Let_def)

theorem hits_plus_faults_count_steps_witness:
  "\<exists>s. constructor ''7, 0, 1, 0, 7'' 2 ''lru'' = Inr s
     \<and> 3 \<le> length (referenceString s)
     \<and> pageHits (simulate_steps s 3) + pageFaults (simulate_steps s 3) = length (history (simulate_steps s 3))
     \<and> length (history (simulate_steps s 3)) = 3
     \<and> pageHits (snd (simulate s)) + pageFaults (snd (simulate s)) = 5
     \<and> length (fst (simulate s)) = 5"
proof -
  obtain s where s: "constructor ''7, 0, 1, 0, 7'' 2 ''lru'' = Inr s"
    by (simp add: constructor_def)
  have "map (\<lambda>x. parseInt (trim x)) (split_on CHR '','' ''7, 0, 1, 0, 7'')
      = [Num 7, Num 0, Num 1, Num 0, Num 7]"
    by code_simp
  then have len: "length (referenceString s) = 5"
    using constructor_fields(7) [OF s] by simp
  then have "3 \<le> length (referenceString s)" by simp
  from hits_plus_faults_count_steps [OF s this] s len show ?thesis
    by (intro exI [of _ s]) simp
qed

text \<open>Frames grow only while they are fewer than \<open>numFrames\<close>; a replacement keeps the length.\<close>

lemma frames_bounded_step:
  assumes "int (length (frames s)) \<le> numFrames s"
  shows "int (length (frames (processPage s p i))) \<le> numFrames s"
  using assms by (simp add: processPage_frames)

lemma frames_bounded_steps:
  assumes "int (length (frames s)) \<le> numFrames s"
    and "\<forall>e \<in> set (history s). int (length (frames_copy e)) \<le> numFrames s"
  shows "int (length (frames (simulate_steps s n))) \<le> numFrames s
       \<and> (\<forall>e \<in> set (history (simulate_steps s n)). int (length (frames_copy e)) \<le> numFrames s)"
proof (induction n)
  case 0
  from assms show ?case by simp
next
  case (Suc n)
  let ?t = "simulate_steps s n"
  from Suc have a: "int (length (frames ?t)) \<le> numFrames ?t" by simp
  have b: "int (length (frames (processPage ?t (referenceString s ! n) n))) \<le> numFrames s"
    using frames_bounded_step [OF a] by simp
  with Suc show ?case
    by (simp add: simulate_steps_Suc processPage_history)
qed

text \<open>
  C2. With a frame count \<open>F \<ge> 1\<close>, after every processed reference the live frames
  array has at most \<open>F\<close> elements, and so has the frames copy of every history entry.
\<close>

theorem frames_never_exceed_frame_count:
  assumes "constructor referenceStringInput F algorithmInput = Inr s"
    and "1 \<le> F"
    and "n \<le> length (referenceString s)"
  shows "int (length (frames (simulate_steps s n))) \<le> F
       \<and> (\<forall>e \<in> set (history (simulate_steps s n)). int (length (frames_copy e)) \<le> F)"
  using frames_bounded_steps [of s n] constructor_fields [OF assms(1)] assms(2) by simp

theorem frames_never_exceed_frame_count_witness:
  "\<exists>s. constructor ''1,2,3,4,1,2,5'' 3 ''clock'' = Inr s
     \<and> (1::int) \<le> 3 \<and> 7 \<le> length (referenceString s)
     \<and> int (length (frames (simulate_steps s 7))) \<le> 3
     \<and> list_all (\<lambda>e. int (length (frames_copy e)) \<le> 3) (history (simulate_steps s 7))
     \<and> length (history (simulate_steps s 7)) = 7"
proof -
  obtain s where s: "constructor ''1,2,3,4,1,2,5'' 3 ''clock'' = Inr s"
    by (simp add: constructor_def)
  have "map (\<lambda>x. parseInt (trim x)) (split_on CHR '','' ''1,2,3,4,1,2,5'')
      = [Num 1, Num 2, Num 3, Num 4, Num 1, Num 2, Num 5]"
    by code_simp
  then have len: "length (referenceString s) = 7"
    using constructor_fields(7) [OF s] by simp
  then have n: "7 \<le> length (referenceString s)" by simp
  have h: "length (history (simulate_steps s 7)) = 7"
    using constructor_fields(4) [OF s] by (simp add: simulate_steps_history_length)
  from frames_never_exceed_frame_count [OF s _ n] s n h show ?thesis
    by (intro exI [of _ s]) (simp add: list_all_iff)
qed


text \<open>
  C5. FIFO on the reference string \<open>1,2,3,4,1,2,5,1,2,3,4,5\<close> makes 9 page faults with
  3 frames and 10 page faults with 4 frames.
\<close>

theorem fifo_belady_anomaly:
  "map_sum id (\<lambda>s. pageFaults (snd (simulate s)))
     (constructor ''1,2,3,4,1,2,5,1,2,3,4,5'' 3 ''fifo'') = Inr 9
   \<and> map_sum id (\<lambda>s. pageFaults (snd (simulate s)))
     (constructor ''1,2,3,4,1,2,5,1,2,3,4,5'' 4 ''fifo'') = Inr 10"
  by code_simp

subsection \<open>Construction: parsing and configuration\<close>

text \<open>A trimmed token has no leading white space, so \<open>parseInt\<close> skips nothing.\<close>

lemma trim_no_leading_space: "dropWhile isWhiteSpace (trim s) = trim s"
proof (cases "dropWhile isWhiteSpace s")
  case Nil
  show ?thesis by (simp add: trim_def Nil)
next
  case (Cons c rest)
  then have c: "\<not> isWhiteSpace c"
    by (metis hd_dropWhile list.distinct(1) list.sel(1))
  have "dropWhile isWhiteSpace (rev rest @ [c]) = dropWhile isWhiteSpace (rev rest) @ [c]"
    using c by (simp add: dropWhile_append3)
  then have "trim s = c # rev (dropWhile isWhiteSpace (rev rest))"
    by (simp add: trim_def Cons)
  with c show ?thesis by simp
qed

lemma is_digit_0: "is_digit 10 CHR ''0''"
  by (simp add: is_digit_def digit_value_def)

lemma parseInt_no_digit:
  assumes "\<not> starts_with_digit (trim t)"
  shows "parseInt (trim t) = NaN"
proof -
  define s2 where "s2 = (case trim t of c # r \<Rightarrow> if c = CHR ''-'' \<or> c = CHR ''+'' then r else trim t | [] \<Rightarrow> [])"
  have s2': "s2 = (case trim t of c # r \<Rightarrow> if c = CHR ''-'' \<or> c = CHR ''+'' then r else trim t | [] \<Rightarrow> trim t)"
    by (simp add: s2_def split: list.splits)
  from assms have nd: "s2 = [] \<or> \<not> is_digit 10 (hd s2)"
    by (auto simp: starts_with_digit_def s2_def split: list.splits)
  then have nohex: "\<not> (case s2 of a # b # _ \<Rightarrow> a = CHR ''0'' \<and> (b = CHR ''x'' \<or> b = CHR ''X'') | _ \<Rightarrow> False)"
    using is_digit_0 by (auto split: list.splits)
  from nd have "takeWhile (is_digit 10) s2 = []"
    by (cases s2) auto
  with nohex show ?thesis
    unfolding parseInt_def trim_no_leading_space Let_def s2' [symmetric]
    by simp
qed

text \<open>
  The token \<open>x\<close> is not an integer, and construction on \<open>1,x,2\<close> returns a simulator whose
  reference sequence holds \<open>NaN\<close> in its place; \<open>simulate\<close> then runs over all three
  references.
\<close>

theorem non_integer_token_counterexample:
  "\<not> is_integer_token (trim ''x'')
   \<and> constructor ''1,x,2'' 3 ''fifo'' \<noteq> Inl ParseError
   \<and> map_sum id (\<lambda>s. (referenceString s, length (fst (simulate s)), pageFaults (snd (simulate s))))
       (constructor ''1,x,2'' 3 ''fifo'') = Inr ([Num 1, NaN, Num 2], 3, 3)"
proof -
  have "\<not> is_integer_token (trim ''x'')"
    by code_simp
  moreover have "constructor ''1,x,2'' 3 ''fifo'' \<noteq> Inl ParseError"
    by (simp add: constructor_def)
  moreover have "map_sum id (\<lambda>s. (referenceString s, length (fst (simulate s)), pageFaults (snd (simulate s))))
       (constructor ''1,x,2'' 3 ''fifo'') = Inr ([Num 1, NaN, Num 2], 3, 3)"
    by code_simp
  ultimately show ?thesis by blast
qed

lemma parseInt_integer_token:
  assumes "is_integer_token (trim t)"
  shows "parseInt (trim t) \<noteq> NaN"
proof -
  define s2 where "s2 = (case trim t of c # r \<Rightarrow> if c = CHR ''-'' \<or> c = CHR ''+'' then r else trim t | [] \<Rightarrow> [])"
  have s2': "s2 = (case trim t of c # r \<Rightarrow> if c = CHR ''-'' \<or> c = CHR ''+'' then r else trim t | [] \<Rightarrow> trim t)"
    by (simp add: s2_def split: list.splits)
  from assms have d: "s2 \<noteq> []" "list_all (is_digit 10) s2"
    by (simp_all add: is_integer_token_def s2_def Let_def)
  have x: "\<not> is_digit 10 CHR ''x''" "\<not> is_digit 10 CHR ''X''"
    by (simp_all add: is_digit_def digit_value_def)
  from d x have nohex: "\<not> (case s2 of a # b # _ \<Rightarrow> a = CHR ''0'' \<and> (b = CHR ''x'' \<or> b = CHR ''X'') | _ \<Rightarrow> False)"
    by (auto split: list.splits)
  from d have "takeWhile (is_digit 10) s2 \<noteq> []"
    by (cases s2) auto
  with nohex show ?thesis
    unfolding parseInt_def trim_no_leading_space Let_def s2' [symmetric]
    by simp
qed

text \<open>
  C7, as the code has it. Construction returns a simulator for every input: the
  reference sequence has one entry per comma-separated token, an entry is \<open>NaN\<close> when
  the trimmed token does not begin (after an optional sign) with a decimal digit and is
  a number when the trimmed token is an integer, and \<open>simulate\<close> records one step per
  token.
\<close>

theorem construction_never_raises_ParseError:
  "\<exists>s. constructor referenceStringInput F algorithmInput = Inr s
     \<and> length (referenceString s) = length (split_on CHR '','' referenceStringInput)
     \<and> (\<forall>k < length (split_on CHR '','' referenceStringInput).
          (\<not> starts_with_digit (trim (split_on CHR '','' referenceStringInput ! k))
             \<longrightarrow> referenceString s ! k = NaN)
        \<and> (is_integer_token (trim (split_on CHR '','' referenceStringInput ! k))
             \<longrightarrow> referenceString s ! k \<noteq> NaN))
     \<and> length (fst (simulate s)) = length (split_on CHR '','' referenceStringInput)"
proof -
  obtain s where s: "constructor referenceStringInput F algorithmInput = Inr s"
    by (simp add: constructor_def)
  note f = constructor_fields [OF s]
  have "length (fst (simulate s)) = length (referenceString s)"
    using f(4) by (simp add: simulate_def Let_def simulate_steps_history_length)
  with s f(7) show ?thesis
    by (intro exI [of _ s]) (simp add: parseInt_no_digit parseInt_integer_token)
qed

theorem construction_never_raises_ParseError_witness:
  "\<exists>s. constructor ''1,x,2'' 3 ''fifo'' = Inr s
     \<and> \<not> starts_with_digit (trim ''x'') \<and> referenceString s ! 1 = NaN
     \<and> is_integer_token (trim ''2'') \<and> referenceString s ! 2 \<noteq> NaN
     \<and> length (fst (simulate s)) = 3"
proof -
  have t: "split_on CHR '','' ''1,x,2'' = [''1'', ''x'', ''2'']"
    by code_simp
  have a: "\<not> starts_with_digit (trim ''x'')" and b: "is_integer_token (trim ''2'')"
    by code_simp+
  from construction_never_raises_ParseError [of "''1,x,2''" 3 "''fifo''"]
  obtain s where s: "constructor ''1,x,2'' 3 ''fifo'' = Inr s"
    and k: "\<forall>k < length (split_on CHR '','' ''1,x,2'').
          (\<not> starts_with_digit (trim (split_on CHR '','' ''1,x,2'' ! k)) \<longrightarrow> referenceString s ! k = NaN)
        \<and> (is_integer_token (trim (split_on CHR '','' ''1,x,2'' ! k)) \<longrightarrow> referenceString s ! k \<noteq> NaN)"
    and l: "length (fst (simulate s)) = length (split_on CHR '','' ''1,x,2'')"
    by blast
  from k [rule_format, of 1] k [rule_format, of 2] a b
  have "referenceString s ! 1 = NaN" "referenceString s ! 2 \<noteq> NaN"
    unfolding t by simp_all
  with s a b l show ?thesis
    unfolding t by (intro exI [of _ s]) simp
qed

text \<open>
  With a frame count below 1 no page is ever loaded, and a selector outside the four
  leaves the data structures untouched.
\<close>

lemma frames_stay_empty:
  assumes "numFrames s < 1" and "frames s = []"
  shows "frames (simulate_steps s n) = [] \<and> pageFaults (simulate_steps s n) = pageFaults s + n"
proof (induction n)
  case 0
  from assms show ?case by simp
next
  case (Suc n)
  let ?t = "simulate_steps s n"
  have "length (frames (processPage ?t (referenceString s ! n) n)) = 0"
    using Suc assms(1) by (simp add: processPage_frames)
  with Suc show ?case
    by (simp add: simulate_steps_Suc processPage_counters)
qed

lemma unknown_algorithm_step:
  assumes "\<not> known_algorithm (algorithm s)"
  shows "dataStructures (processPage s p i) = dataStructures s"
  using assms
  by (simp add: known_algorithm_def processPage_def Let_def updateDataStructures_def
      selectPageToReplace_def)

lemma unknown_algorithm_steps:
  assumes "\<not> known_algorithm (algorithm s)"
  shows "dataStructures (simulate_steps s n) = dataStructures s"
  using assms by (induction n) (simp_all add: simulate_steps_Suc unknown_algorithm_step)

text \<open>
  C8, as the code has it. Construction returns a simulator for every frame count and
  every selector and stores both as given. With a frame count below 1 the frames stay
  empty through \<open>simulate\<close> and every reference is a fault; with a selector outside
  \<open>fifo\<close>, \<open>lru\<close>, \<open>optimal\<close>, \<open>clock\<close> the data structures are never set up nor
  changed.
\<close>

theorem construction_never_raises_InvalidConfigurationError:
  "\<exists>s. constructor referenceStringInput frameCount algorithmInput = Inr s
     \<and> numFrames s = frameCount \<and> algorithm s = algorithmInput
     \<and> frames s = [] \<and> history s = [] \<and> pageFaults s = 0 \<and> pageHits s = 0
     \<and> (frameCount < 1 \<longrightarrow>
          frames (snd (simulate s)) = [] \<and> pageFaults (snd (simulate s)) = length (referenceString s))
     \<and> (\<not> known_algorithm algorithmInput \<longrightarrow>
          dataStructures s = empty_dataStructures
          \<and> dataStructures (snd (simulate s)) = empty_dataStructures)"
proof -
  obtain s where s: "constructor referenceStringInput frameCount algorithmInput = Inr s"
    by (simp add: constructor_def)
  note f = constructor_fields [OF s]
  have a: "frameCount < 1 \<Longrightarrow>
      frames (snd (simulate s)) = [] \<and> pageFaults (snd (simulate s)) = length (referenceString s)"
    using frames_stay_empty [of s "length (referenceString s)"] f
    by (simp add: simulate_def Let_def)
  have b: "dataStructures s = empty_dataStructures" if "\<not> known_algorithm algorithmInput"
    using s that by (auto simp: constructor_def initializeAlgorithm_def known_algorithm_def)
  have c: "dataStructures (snd (simulate s)) = empty_dataStructures" if "\<not> known_algorithm algorithmInput"
    using unknown_algorithm_steps [of s] b that f(6) by (simp add: simulate_def Let_def)
  from s f a b c show ?thesis
    by (intro exI [of _ s]) simp
qed

theorem construction_never_raises_InvalidConfigurationError_witness:
  "(\<exists>s. constructor ''1,2,1'' 0 ''fifo'' = Inr s \<and> (0::int) < 1
      \<and> frames (snd (simulate s)) = [] \<and> pageFaults (snd (simulate s)) = length (referenceString s))
   \<and> (\<exists>s. constructor ''1,2,1'' 2 ''random'' = Inr s \<and> \<not> known_algorithm ''random''
      \<and> dataStructures (snd (simulate s)) = empty_dataStructures)"
proof -
  have k: "\<not> known_algorithm ''random''"
    by (simp add: known_algorithm_def)
  from construction_never_raises_InvalidConfigurationError [of "''1,2,1''" 0 "''fifo''"]
  have 1: "\<exists>s. constructor ''1,2,1'' 0 ''fifo'' = Inr s \<and> (0::int) < 1
      \<and> frames (snd (simulate s)) = [] \<and> pageFaults (snd (simulate s)) = length (referenceString s)"
    by auto
  from construction_never_raises_InvalidConfigurationError [of "''1,2,1''" 2 "''random''"] k
  have 2: "\<exists>s. constructor ''1,2,1'' 2 ''random'' = Inr s \<and> \<not> known_algorithm ''random''
      \<and> dataStructures (snd (simulate s)) = empty_dataStructures"
    by auto
  from 1 2 show ?thesis by blast
qed

text \<open>
  Frame count 0 with FIFO, and the selector \<open>random\<close> with 2 frames: both constructions
  return a simulator, and \<open>simulate\<close> runs on it.
\<close>

theorem invalid_configuration_counterexample:
  "constructor ''1,2,1'' 0 ''fifo'' \<noteq> Inl InvalidConfigurationError
   \<and> constructor ''1,2,1'' 2 ''random'' \<noteq> Inl InvalidConfigurationError
   \<and> map_sum id (\<lambda>s. (numFrames s, frames (snd (simulate s)), pageFaults (snd (simulate s))))
       (constructor ''1,2,1'' 0 ''fifo'') = Inr (0, [], 3)
   \<and> map_sum id (\<lambda>s. (algorithm s, frames (snd (simulate s)), pageFaults (snd (simulate s))))
       (constructor ''1,2,1'' 2 ''random'') = Inr (''random'', [Num 1, Num 2], 2)"
proof -
  have "constructor ''1,2,1'' 0 ''fifo'' \<noteq> Inl InvalidConfigurationError"
    "constructor ''1,2,1'' 2 ''random'' \<noteq> Inl InvalidConfigurationError"
    by (simp_all add: constructor_def)
  moreover have "map_sum id (\<lambda>s. (numFrames s, frames (snd (simulate s)), pageFaults (snd (simulate s))))
       (constructor ''1,2,1'' 0 ''fifo'') = Inr (0, [], 3)"
    by code_simp
  moreover have "map_sum id (\<lambda>s. (algorithm s, frames (snd (simulate s)), pageFaults (snd (simulate s))))
       (constructor ''1,2,1'' 2 ''random'') = Inr (''random'', [Num 1, Num 2], 2)"
    by code_simp
  ultimately show ?thesis by blast
qed

text \<open>
  The empty input, 3 frames, FIFO: the reference sequence is \<open>[NaN]\<close>, and the run has
  one fault and one history entry.
\<close>

theorem empty_input_counterexample:
  "map_sum id (\<lambda>s. (referenceString s, pageFaults (snd (simulate s)), pageHits (snd (simulate s)),
                    length (fst (simulate s)), hitRatio (getStatistics (snd (simulate s)))))
     (constructor '''' 3 ''fifo'') = Inr ([NaN], 1, 0, 1, ToFixed2 0 1)"
  by code_simp

text \<open>
  C9, as the code has it. The empty input is one empty token, so the reference
  sequence is \<open>[NaN]\<close>. The fresh simulator has an empty history and its statistics are
  zero faults, zero hits and the hit ratio 0; after \<open>simulate\<close> there is one fault, no
  hit, one history entry, and the hit ratio is the two-decimal string for 0 hits out of
  1 reference.
\<close>

theorem empty_input_is_one_NaN_reference:
  "\<exists>s. constructor '''' frameCount algorithmInput = Inr s
     \<and> referenceString s = [NaN]
     \<and> history s = []
     \<and> getStatistics s = \<lparr>stat_pageFaults = 0, stat_pageHits = 0, hitRatio = NumberZero, totalReferences = 0\<rparr>
     \<and> pageFaults (snd (simulate s)) = 1
     \<and> pageHits (snd (simulate s)) = 0
     \<and> length (fst (simulate s)) = 1
     \<and> hitRatio (getStatistics (snd (simulate s))) = ToFixed2 0 1"
proof -
  obtain s where s: "constructor '''' frameCount algorithmInput = Inr s"
    by (simp add: constructor_def)
  note f = constructor_fields [OF s]
  have p: "parseInt (trim '''') = NaN"
    by (simp add: parseInt_def trim_def)
  have r: "referenceString s = [NaN]"
    using f(7) p by simp
  have one: "simulate_steps s (Suc 0) = processPage s NaN 0"
    using r by (simp add: simulate_steps_Suc)
  have c: "pageFaults (snd (simulate s)) = 1 \<and> pageHits (snd (simulate s)) = 0
      \<and> length (fst (simulate s)) = 1"
    using f r one by (simp add: simulate_def Let_def processPage_counters processPage_history)
  then have h: "hitRatio (getStatistics (snd (simulate s))) = ToFixed2 0 1"
    by (simp add: getStatistics_def)
  have g: "getStatistics s = \<lparr>stat_pageFaults = 0, stat_pageHits = 0, hitRatio = NumberZero, totalReferences = 0\<rparr>"
    using f by (simp add: getStatistics_def)
  from s r f(4) g c h show ?thesis
    by (intro exI [of _ s]) simp
qed

subsection \<open>Optimal: the page evicted\<close>

lemma find_filter: "find P (filter Q xs) = find (\<lambda>x. Q x \<and> P x) xs"
  by (induction xs) auto

lemma future_fold:
  "foldl (\<lambda>futureRefs i. let pg = refs ! i
            in futureRefs(pg \<mapsto> (case futureRefs pg of None \<Rightarrow> [] | Some l \<Rightarrow> l) @ [i]))
         m [0..<n] p =
     (if filter (\<lambda>k. refs ! k = p) [0..<n] = [] then m p
      else Some ((case m p of None \<Rightarrow> [] | Some l \<Rightarrow> l) @ filter (\<lambda>k. refs ! k = p) [0..<n]))"
  by (induction n) (auto simp: Let_def)

lemma calculateFutureReferences_eq:
  "calculateFutureReferences refs p =
     (if filter (\<lambda>k. refs ! k = p) [0..<length refs] = [] then None
      else Some (filter (\<lambda>k. refs ! k = p) [0..<length refs]))"
  unfolding calculateFutureReferences_def by (simp add: future_fold)

lemma nextIndex_is_next_occurrence:
  assumes "futureReferences (dataStructures s) = calculateFutureReferences refs"
  shows "nextIndex s i p = next_occurrence refs i p"
proof -
  have l: "(case calculateFutureReferences refs p of None \<Rightarrow> [] | Some l \<Rightarrow> l)
      = filter (\<lambda>k. refs ! k = p) [0..<length refs]"
    by (simp add: calculateFutureReferences_eq)
  have f: "find (\<lambda>idx. i < idx) (filter (\<lambda>k. refs ! k = p) [0..<length refs])
      = find (\<lambda>k. i < k \<and> refs ! k = p) [0..<length refs]"
    by (simp add: find_filter conj_commute)
  have pos: "find (\<lambda>k. i < k \<and> refs ! k = p) [0..<length refs] = Some k \<Longrightarrow> k \<noteq> 0" for k
    by (auto simp: find_Some_iff)
  show ?thesis
    unfolding nextIndex_def next_occurrence_def assms l Let_def f
    by (auto split: option.splits dest: pos)
qed

lemma next_occurrence_after: "enat i < next_occurrence refs i p"
  by (auto simp: next_occurrence_def find_Some_iff split: option.splits)

text \<open>The scan of \<open>selectOptimalPage\<close> keeps the first page with the largest key.\<close>

lemma farthest_scan:
  fixes f :: "number \<Rightarrow> enat"
  defines "stp \<equiv> \<lambda>(farthestPage, farthestIndex) pg.
             if f pg > farthestIndex then (Some pg, f pg) else (farthestPage, farthestIndex)"
  shows "case foldl stp (a, b) xs of (r, m) \<Rightarrow>
           (if \<forall>x \<in> set xs. f x \<le> b then r = a \<and> m = b
            else \<exists>k < length xs. r = Some (xs ! k) \<and> m = f (xs ! k) \<and> b < m
                   \<and> (\<forall>j < length xs. f (xs ! j) \<le> m) \<and> (\<forall>j < k. f (xs ! j) < m))"
proof (induction xs rule: rev_induct)
  case Nil
  show ?case by simp
next
  case (snoc x xs)
  obtain r m where rm: "foldl stp (a, b) xs = (r, m)"
    by (cases "foldl stp (a, b) xs")
  show ?case
  proof (cases "\<forall>y \<in> set xs. f y \<le> b")
    case True
    with snoc rm have eq: "r = a" "m = b" by auto
    from True have nb: "\<forall>j < length xs. f (xs ! j) \<le> b" by simp
    show ?thesis
    proof (cases "f x > b")
      case gt: True
      have lt: "\<forall>j < length xs. f (xs ! j) < f x"
        using nb gt by (auto intro: le_less_trans)
      then have "\<forall>j < length (xs @ [x]). f ((xs @ [x]) ! j) \<le> f x"
        by (auto simp: nth_append less_Suc_eq intro: less_imp_le)
      moreover have "\<forall>j < length xs. f ((xs @ [x]) ! j) < f x"
        using lt by (auto simp: nth_append)
      ultimately show ?thesis
        using gt rm eq by (auto simp: stp_def intro!: exI [of _ "length xs"])
    next
      case False
      with True rm eq show ?thesis by (auto simp: stp_def)
    qed
  next
    case False
    with snoc rm obtain k where k: "k < length xs" "r = Some (xs ! k)" "m = f (xs ! k)" "b < m"
      "\<forall>j < length xs. f (xs ! j) \<le> m" "\<forall>j < k. f (xs ! j) < m"
      by auto
    from False have nall: "\<not> (\<forall>y \<in> set (xs @ [x]). f y \<le> b)" by auto
    show ?thesis
    proof (cases "f x > m")
      case gt: True
      have lt: "\<forall>j < length xs. f (xs ! j) < f x"
        using k(5) gt by (auto intro: le_less_trans)
      then have "\<forall>j < length (xs @ [x]). f ((xs @ [x]) ! j) \<le> f x"
        by (auto simp: nth_append less_Suc_eq intro: less_imp_le)
      moreover have "\<forall>j < length xs. f ((xs @ [x]) ! j) < f x"
        using lt by (auto simp: nth_append)
      moreover have "b < f x" using k(4) gt by simp
      ultimately show ?thesis
        using gt rm nall by (auto simp: stp_def intro!: exI [of _ "length xs"])
    next
      case le: False
      have "\<forall>j < length (xs @ [x]). f ((xs @ [x]) ! j) \<le> m"
        using k(5) le by (auto simp: nth_append less_Suc_eq)
      moreover have "\<forall>j < k. f ((xs @ [x]) ! j) < m"
        using k(1,6) by (auto simp: nth_append)
      moreover have "(xs @ [x]) ! k = xs ! k" using k(1) by (simp add: nth_append)
      ultimately show ?thesis
        using le rm nall k(1,2,3,4) by (auto simp: stp_def intro!: exI [of _ k])
    qed
  qed
qed

lemma first_farthest_iff:
  "first_farthest refs i fs k \<longleftrightarrow>
     k < length fs
     \<and> (\<forall>j < length fs. next_occurrence refs i (fs ! j) \<le> next_occurrence refs i (fs ! k))
     \<and> (\<forall>j < k. next_occurrence refs i (fs ! j) < next_occurrence refs i (fs ! k))"
  by (auto simp: first_farthest_def list_all_iff)

lemma selectOptimalPage_first_farthest:
  assumes "futureReferences (dataStructures s) = calculateFutureReferences refs"
    and "frames s \<noteq> []"
  shows "\<exists>k. first_farthest refs i (frames s) k \<and> selectOptimalPage s i = Some (frames s ! k)"
proof -
  let ?f = "next_occurrence refs i"
  let ?a = "case frames s of [] \<Rightarrow> None | p # _ \<Rightarrow> Some p"
  have sel: "selectOptimalPage s i =
      fst (foldl (\<lambda>(farthestPage, farthestIndex) pg.
             if ?f pg > farthestIndex then (Some pg, ?f pg) else (farthestPage, farthestIndex))
           (?a, enat i) (frames s))"
    unfolding selectOptimalPage_def nextIndex_is_next_occurrence [OF assms(1)] ..
  obtain x where "x \<in> set (frames s)" using assms(2) by (cases "frames s") auto
  then have "\<not> (\<forall>x \<in> set (frames s). ?f x \<le> enat i)"
    using next_occurrence_after [of i refs x] by (auto simp: not_le)
  with farthest_scan [where f = ?f and a = ?a and b = "enat i" and xs = "frames s"] sel show ?thesis
    by (auto simp: first_farthest_iff split: prod.splits)
qed

lemma indexOf_from_first:
  assumes "v \<noteq> NaN" and "k < length xs" and "xs ! k = v" and "\<forall>j < k. xs ! j \<noteq> v"
  shows "indexOf_from xs v n = int (n + k)"
  using assms
proof (induction xs arbitrary: k n)
  case Nil
  then show ?case by simp
next
  case (Cons x xs)
  show ?case
  proof (cases k)
    case 0
    with Cons.prems show ?thesis by (simp add: strict_eq_def)
  next
    case (Suc k')
    with Cons.prems have "x \<noteq> v" by auto
    moreover have "indexOf_from xs v (Suc n) = int (Suc n + k')"
      using Cons.prems Suc by (intro Cons.IH) auto
    ultimately show ?thesis using Suc by (simp add: strict_eq_def)
  qed
qed

lemma indexOf_from_range: "indexOf_from xs v n = - 1 \<or> (\<exists>k < length xs. indexOf_from xs v n = int (n + k) \<and> xs ! k = v)"
proof (induction xs arbitrary: n)
  case Nil
  show ?case by simp
next
  case (Cons x xs)
  from Cons [of "Suc n"] show ?case
    by (auto simp: strict_eq_def)
qed

lemma assign_index_indexOf:
  "assign_index xs (indexOf xs v) p = xs
   \<or> (\<exists>k < length xs. v = Some (xs ! k) \<and> assign_index xs (indexOf xs v) p = xs[k := p])"
proof (cases v)
  case None
  then show ?thesis by (simp add: assign_index_def)
next
  case (Some w)
  from indexOf_from_range [of xs w 0] show ?thesis
    using Some by (auto simp: assign_index_def)
qed

lemma distinct_processPage:
  assumes "distinct (frames s)"
  shows "distinct (frames (processPage s p i))"
proof -
  have "distinct (assign_index (frames s) (indexOf (frames s) v) p)" if "p \<notin> set (frames s)" for v
    using assign_index_indexOf [of "frames s" v p] assms that
    by (auto simp: distinct_list_update)
  with assms show ?thesis by (simp add: processPage_frames)
qed

lemma set_processPage: "set (frames (processPage s p i)) \<subseteq> insert p (set (frames s))"
proof -
  have "set (assign_index (frames s) (indexOf (frames s) v) p) \<subseteq> insert p (set (frames s))" for v
  proof -
    from assign_index_indexOf [of "frames s" v p]
    consider "assign_index (frames s) (indexOf (frames s) v) p = frames s"
      | k where "assign_index (frames s) (indexOf (frames s) v) p = (frames s)[k := p]"
      by blast
    then show ?thesis
    proof cases
      case 1
      then show ?thesis by auto
    next
      case 2
      then show ?thesis by (simp add: set_update_subset_insert)
    qed
  qed
  then show ?thesis by (auto simp: processPage_frames)
qed

lemma set_simulate_steps:
  assumes "n \<le> length (referenceString s)"
  shows "set (frames (simulate_steps s n)) \<subseteq> set (frames s) \<union> set (take n (referenceString s))"
  using assms
proof (induction n)
  case 0
  show ?case by simp
next
  case (Suc n)
  then have "set (frames (simulate_steps s n)) \<subseteq> set (frames s) \<union> set (take n (referenceString s))"
    by simp
  with set_processPage [of "simulate_steps s n" "referenceString s ! n" n] Suc.prems show ?case
    by (auto simp: simulate_steps_Suc take_Suc_conv_app_nth)
qed

lemma nextIndex_pageFaults [simp]: "nextIndex (s\<lparr>pageFaults := x\<rparr>) i = nextIndex s i"
  by (rule ext) (simp add: nextIndex_def)

lemma selectOptimalPage_pageFaults [simp]:
  "selectOptimalPage (s\<lparr>pageFaults := x\<rparr>) i = selectOptimalPage s i"
  by (simp add: selectOptimalPage_def cong: if_cong)

lemma optimal_victim:
  assumes "algorithm s = ''optimal''"
  shows "victim s i = selectOptimalPage s i"
  using assms by (simp add: victim_def selectPageToReplace_def)

lemma optimal_dataStructures_step:
  assumes "algorithm s = ''optimal''"
  shows "dataStructures (processPage s p i) = dataStructures s"
  using assms
  by (simp add: processPage_def Let_def updateDataStructures_def selectPageToReplace_def)

lemma optimal_dataStructures_steps:
  assumes "algorithm s = ''optimal''"
  shows "dataStructures (simulate_steps s n) = dataStructures s"
  using assms by (induction n) (simp_all add: simulate_steps_Suc optimal_dataStructures_step)

lemma constructor_optimal:
  assumes "constructor inp F ''optimal'' = Inr s"
  shows "futureReferences (dataStructures s) = calculateFutureReferences (referenceString s)"
  using assms by (auto simp: constructor_def initializeAlgorithm_def)

lemma optimal_selection:
  assumes alg: "algorithm s = ''optimal''"
    and fut: "futureReferences (dataStructures s) = calculateFutureReferences refs"
    and ne: "frames s \<noteq> []"
  shows "\<exists>k. first_farthest refs i (frames s) k \<and> victim s i = Some (frames s ! k)
           \<and> (frames s ! k \<noteq> NaN \<longrightarrow>
                assign_index (frames s) (indexOf (frames s) (victim s i)) p = (frames s)[k := p])"
proof -
  from selectOptimalPage_first_farthest [OF fut ne, of i]
  obtain k where k: "first_farthest refs i (frames s) k" and v: "selectOptimalPage s i = Some (frames s ! k)"
    by blast
  let ?v = "frames s ! k"
  from k have kl: "k < length (frames s)" by (simp add: first_farthest_iff)
  have first: "\<forall>j < k. frames s ! j \<noteq> ?v"
  proof (intro allI impI)
    fix j assume "j < k"
    with k have "next_occurrence refs i (frames s ! j) < next_occurrence refs i ?v"
      by (simp add: first_farthest_iff)
    then show "frames s ! j \<noteq> ?v" by auto
  qed
  have "assign_index (frames s) (indexOf (frames s) (victim s i)) p = (frames s)[k := p]"
    if vn: "?v \<noteq> NaN"
  proof -
    from indexOf_from_first [OF vn kl refl first, of 0]
    have "indexOf (frames s) (Some ?v) = int k" by simp
    with v show ?thesis
      by (simp add: optimal_victim [OF alg] assign_index_def)
  qed
  with k v show ?thesis
    by (auto simp: optimal_victim [OF alg])
qed

lemma optimal_replacement:
  assumes alg: "algorithm s = ''optimal''"
    and fut: "futureReferences (dataStructures s) = calculateFutureReferences refs"
    and ne: "frames s \<noteq> []"
    and nan: "NaN \<notin> set (frames s)"
  shows "\<exists>k. first_farthest refs i (frames s) k \<and> victim s i = Some (frames s ! k)
           \<and> assign_index (frames s) (indexOf (frames s) (victim s i)) p = (frames s)[k := p]"
proof -
  from optimal_selection [OF alg fut ne, of i p]
  obtain k where k: "first_farthest refs i (frames s) k" "victim s i = Some (frames s ! k)"
    "frames s ! k \<noteq> NaN \<longrightarrow>
       assign_index (frames s) (indexOf (frames s) (victim s i)) p = (frames s)[k := p]"
    by blast
  from k(1) have "k < length (frames s)" by (simp add: first_farthest_iff)
  with nan have "frames s ! k \<noteq> NaN" by (metis nth_mem)
  with k show ?thesis by blast
qed

text \<open>
  On \<open>,1,2\<close> with 2 frames the first token is empty and the frames are \<open>[NaN, 1]\<close> when
  page 2 faults. Neither resident page recurs, so the first of them, \<open>NaN\<close>, is selected;
  \<open>indexOf\<close> does not find it, no page is evicted and page 2 is not loaded.
\<close>

theorem optimal_nan_victim_counterexample:
  "referenceString (projr (constructor '',1,2'' 2 ''optimal'')) = [NaN, Num 1, Num 2]
   \<and> frames (simulate_steps (projr (constructor '',1,2'' 2 ''optimal'')) 2) = [NaN, Num 1]
   \<and> victim (simulate_steps (projr (constructor '',1,2'' 2 ''optimal'')) 2) 2 = Some NaN
   \<and> frames (simulate_steps (projr (constructor '',1,2'' 2 ''optimal'')) 3) = [NaN, Num 1]"
  by code_simp

text \<open>
  C3, as the code has it. On a fault with full frames under the Optimal algorithm
  (\<open>F \<ge> 1\<close>) the page selected is the resident page whose next occurrence after the
  current step is largest, infinity counting for a page that never recurs; among
  several such pages it is the first in the order of the frames. When the selected
  page is an integer, it is evicted: its slot receives the new page.
\<close>

theorem optimal_selects_first_farthest_page:
  assumes "constructor referenceStringInput F ''optimal'' = Inr s0"
    and "1 \<le> F"
    and "i < length (referenceString s0)"
    and "s = simulate_steps s0 i"
    and "referenceString s0 ! i \<notin> set (frames s)"
    and "int (length (frames s)) = F"
  shows "\<exists>k. first_farthest (referenceString s0) i (frames s) k
           \<and> victim s i = Some (frames s ! k)
           \<and> (frames s ! k \<noteq> NaN \<longrightarrow>
                frames (simulate_steps s0 (Suc i)) = (frames s)[k := referenceString s0 ! i])"
proof -
  note f = constructor_fields [OF assms(1)]
  have alg: "algorithm s = ''optimal''"
    using f(6) assms(4) by simp
  have fut: "futureReferences (dataStructures s) = calculateFutureReferences (referenceString s0)"
    using constructor_optimal [OF assms(1)] optimal_dataStructures_steps [of s0 i] f(6) assms(4)
    by simp
  have ne: "frames s \<noteq> []"
    using assms(2,6) by auto
  have full: "\<not> int (length (frames s)) < numFrames s"
    using assms(4,6) f(5) by simp
  from optimal_selection [OF alg fut ne, of i "referenceString s0 ! i"] full assms(4,5)
  show ?thesis
    by (auto simp: simulate_steps_Suc processPage_frames)
qed

theorem optimal_selects_first_farthest_page_witness:
  "\<exists>s0 k. constructor ''7,0,1,2,0'' 3 ''optimal'' = Inr s0
      \<and> 3 < length (referenceString s0)
      \<and> referenceString s0 ! 3 = Num 2
      \<and> frames (simulate_steps s0 3) = [Num 7, Num 0, Num 1]
      \<and> first_farthest (referenceString s0) 3 (frames (simulate_steps s0 3)) k
      \<and> victim (simulate_steps s0 3) 3 = Some (frames (simulate_steps s0 3) ! k)
      \<and> frames (simulate_steps s0 3) ! k \<noteq> NaN
      \<and> frames (simulate_steps s0 (Suc 3)) = (frames (simulate_steps s0 3))[k := Num 2]
      \<and> frames (simulate_steps s0 (Suc 3)) = [Num 2, Num 0, Num 1]"
proof -
  let ?a = "projr (constructor ''7,0,1,2,0'' 3 ''optimal'')"
  have a: "constructor ''7,0,1,2,0'' 3 ''optimal'' = Inr ?a"
    by (simp add: constructor_def)
  have r: "referenceString ?a = [Num 7, Num 0, Num 1, Num 2, Num 0]"
    by code_simp
  have fr: "frames (simulate_steps ?a 3) = [Num 7, Num 0, Num 1]"
    "frames (simulate_steps ?a (Suc 3)) = [Num 2, Num 0, Num 1]"
    by code_simp+
  have h: "3 < length (referenceString ?a)"
    "referenceString ?a ! 3 \<notin> set (frames (simulate_steps ?a 3))"
    "int (length (frames (simulate_steps ?a 3))) = 3"
    unfolding r fr by simp_all
  from optimal_selects_first_farthest_page [OF a _ h(1) refl h(2,3)]
  obtain k where k: "first_farthest (referenceString ?a) 3 (frames (simulate_steps ?a 3)) k"
    "victim (simulate_steps ?a 3) 3 = Some (frames (simulate_steps ?a 3) ! k)"
    "frames (simulate_steps ?a 3) ! k \<noteq> NaN \<longrightarrow>
       frames (simulate_steps ?a (Suc 3)) = (frames (simulate_steps ?a 3))[k := referenceString ?a ! 3]"
    by auto
  from k(1) have "k < length (frames (simulate_steps ?a 3))"
    by (simp add: first_farthest_iff)
  then have "frames (simulate_steps ?a 3) ! k \<in> set (frames (simulate_steps ?a 3))"
    by (rule nth_mem)
  then have nn: "frames (simulate_steps ?a 3) ! k \<noteq> NaN"
    unfolding fr by auto
  moreover have "referenceString ?a ! 3 = Num 2"
    unfolding r by simp
  ultimately show ?thesis
    using a h(1) fr k by (intro exI [of _ ?a] exI [of _ k]) simp
qed

subsection \<open>Clock: the eviction scan\<close>

lemma clear_flags_Suc:
  "(clear_flags flags (inspected fs ptr j))(fs ! slot fs ptr j \<mapsto> False)
     = clear_flags flags (inspected fs ptr (Suc j))"
  by (rule ext) (auto simp: clear_flags_def inspected_def)

lemma mod_shift_inj:
  fixes n :: nat
  assumes "(p + t) mod n = (p + j) mod n" and "t < j" and "j < n"
  shows False
proof -
  have "p + t \<le> p + j" using assms(2) by simp
  from mod_eq_dvd_iff_nat [OF this, of n] assms(1) have "n dvd (p + j) - (p + t)" by simp
  then have "n dvd j - t" by simp
  then have "n \<le> j - t" using assms(2) by (intro dvd_imp_le) simp_all
  with assms show False by simp
qed

lemma slot_less: "fs \<noteq> [] \<Longrightarrow> slot fs ptr t < length fs"
  by (simp add: slot_def)

lemma slot_inj:
  assumes "distinct fs" and "t < j" and "j < length fs"
  shows "fs ! slot fs ptr t \<noteq> fs ! slot fs ptr j"
proof -
  have ne: "fs \<noteq> []" using assms by auto
  have "slot fs ptr t \<noteq> slot fs ptr j"
    using mod_shift_inj [of ptr t "length fs" j] assms(2,3) by (auto simp: slot_def)
  with slot_less [OF ne] assms(1) show ?thesis by (simp add: nth_eq_iff_index_eq)
qed

lemma advance_slot: "fs \<noteq> [] \<Longrightarrow> advance (Some (slot fs ptr j)) (length fs) = Some (slot fs ptr (Suc j))"
  by (simp add: advance_def slot_def mod_Suc_eq)

lemma frame_at_slot: "fs \<noteq> [] \<Longrightarrow> frame_at fs (Some (slot fs ptr j)) = Some (fs ! slot fs ptr j)"
  by (simp add: frame_at_def slot_less)

lemma clock_scan_from:
  assumes "distinct fs" and "fs \<noteq> []" and "j \<le> length fs"
    and "\<forall>t < j. flags (fs ! slot fs ptr t) = Some True"
  shows "\<exists>k. j \<le> k \<and> k \<le> length fs
           \<and> (\<forall>t < k. flags (fs ! slot fs ptr t) = Some True)
           \<and> (k < length fs \<longrightarrow> flags (fs ! slot fs ptr k) \<noteq> Some True)
           \<and> clock_loop fs (clear_flags flags (inspected fs ptr j)) (Some (slot fs ptr j))
               = (Some (fs ! slot fs ptr k), clear_flags flags (inspected fs ptr k), Some (slot fs ptr (Suc k)))
           \<and> clock_within (Suc k - j) fs (clear_flags flags (inspected fs ptr j)) (Some (slot fs ptr j))
               = Some (Some (fs ! slot fs ptr k), clear_flags flags (inspected fs ptr k), Some (slot fs ptr (Suc k)))
           \<and> clock_within (k - j) fs (clear_flags flags (inspected fs ptr j)) (Some (slot fs ptr j)) = None"
  using assms(3,4)
proof (induction "length fs - j" arbitrary: j)
  case 0
  then have j: "j = length fs" by simp
  let ?pg = "fs ! slot fs ptr j"
  have "slot fs ptr j = slot fs ptr 0" by (simp add: slot_def j)
  moreover have "0 < j" using j assms(2) by simp
  ultimately have "?pg \<in> set (inspected fs ptr j)"
    by (auto simp: inspected_def intro!: image_eqI [of _ _ 0])
  then have cur: "clear_flags flags (inspected fs ptr j) ?pg = Some False"
    by (simp add: clear_flags_def)
  have "clock_loop fs (clear_flags flags (inspected fs ptr j)) (Some (slot fs ptr j))
      = (Some ?pg, clear_flags flags (inspected fs ptr j), Some (slot fs ptr (Suc j)))"
    by (subst clock_loop.simps) (simp add: frame_at_slot [OF assms(2)] advance_slot [OF assms(2)] cur)
  moreover have "clock_within (Suc 0) fs (clear_flags flags (inspected fs ptr j)) (Some (slot fs ptr j))
      = Some (Some ?pg, clear_flags flags (inspected fs ptr j), Some (slot fs ptr (Suc j)))"
    by (simp add: frame_at_slot [OF assms(2)] advance_slot [OF assms(2)] cur)
  ultimately show ?case
    using "0.prems" j by (intro exI [of _ j]) simp
next
  case (Suc d)
  then have j: "j < length fs" by simp
  let ?pg = "fs ! slot fs ptr j"
  let ?cur = "clear_flags flags (inspected fs ptr j)"
  have "\<forall>t < j. fs ! slot fs ptr t \<noteq> ?pg"
    using slot_inj [OF assms(1) _ j] by blast
  then have "?pg \<notin> set (inspected fs ptr j)"
    by (auto simp: inspected_def)
  then have cur: "?cur ?pg = flags ?pg"
    by (simp add: clear_flags_def)
  show ?case
  proof (cases "flags ?pg = Some True")
    case True
    have d: "d = length fs - Suc j" using Suc.hyps(2) by simp
    have le: "Suc j \<le> length fs" using j by simp
    have all: "\<forall>t < Suc j. flags (fs ! slot fs ptr t) = Some True"
      using Suc.prems(2) True by (simp add: less_Suc_eq)
    from Suc.hyps(1) [OF d le all] obtain k where k: "Suc j \<le> k" "k \<le> length fs"
      "\<forall>t < k. flags (fs ! slot fs ptr t) = Some True"
      "k < length fs \<longrightarrow> flags (fs ! slot fs ptr k) \<noteq> Some True"
      "clock_loop fs (clear_flags flags (inspected fs ptr (Suc j))) (Some (slot fs ptr (Suc j)))
        = (Some (fs ! slot fs ptr k), clear_flags flags (inspected fs ptr k), Some (slot fs ptr (Suc k)))"
      "clock_within (Suc k - Suc j) fs (clear_flags flags (inspected fs ptr (Suc j))) (Some (slot fs ptr (Suc j)))
        = Some (Some (fs ! slot fs ptr k), clear_flags flags (inspected fs ptr k), Some (slot fs ptr (Suc k)))"
      "clock_within (k - Suc j) fs (clear_flags flags (inspected fs ptr (Suc j))) (Some (slot fs ptr (Suc j))) = None"
      by blast
    have step: "clock_loop fs ?cur (Some (slot fs ptr j))
        = clock_loop fs (clear_flags flags (inspected fs ptr (Suc j))) (Some (slot fs ptr (Suc j)))"
      by (subst clock_loop.simps)
        (simp add: frame_at_slot [OF assms(2)] advance_slot [OF assms(2)] cur True clear_flags_Suc)
    have stepw: "clock_within (Suc n) fs ?cur (Some (slot fs ptr j))
        = clock_within n fs (clear_flags flags (inspected fs ptr (Suc j))) (Some (slot fs ptr (Suc j)))" for n
      by (simp add: frame_at_slot [OF assms(2)] advance_slot [OF assms(2)] cur True clear_flags_Suc)
    have e1: "Suc k - j = Suc (k - j)" and e2: "k - j = Suc (k - Suc j)"
      using k(1) by simp_all
    have "clock_within (Suc (k - j)) fs ?cur (Some (slot fs ptr j))
        = Some (Some (fs ! slot fs ptr k), clear_flags flags (inspected fs ptr k), Some (slot fs ptr (Suc k)))"
      using k(6) by (simp only: stepw diff_Suc_Suc)
    then have A: "clock_within (Suc k - j) fs ?cur (Some (slot fs ptr j))
        = Some (Some (fs ! slot fs ptr k), clear_flags flags (inspected fs ptr k), Some (slot fs ptr (Suc k)))"
      by (simp only: e1)
    have "clock_within (Suc (k - Suc j)) fs ?cur (Some (slot fs ptr j)) = None"
      using k(7) by (simp only: stepw)
    then have B: "clock_within (k - j) fs ?cur (Some (slot fs ptr j)) = None"
      using e2 by simp
    have C: "clock_loop fs ?cur (Some (slot fs ptr j))
        = (Some (fs ! slot fs ptr k), clear_flags flags (inspected fs ptr k), Some (slot fs ptr (Suc k)))"
      using step k(5) by simp
    have "j \<le> k" using k(1) by simp
    with k(2,3,4) A B C show ?thesis
      by (intro exI [of _ k]) blast
  next
    case False
    have "clock_loop fs ?cur (Some (slot fs ptr j))
        = (Some ?pg, ?cur, Some (slot fs ptr (Suc j)))"
      by (subst clock_loop.simps)
        (simp add: frame_at_slot [OF assms(2)] advance_slot [OF assms(2)] cur False)
    moreover have "clock_within (Suc 0) fs ?cur (Some (slot fs ptr j))
        = Some (Some ?pg, ?cur, Some (slot fs ptr (Suc j)))"
      by (simp add: frame_at_slot [OF assms(2)] advance_slot [OF assms(2)] cur False)
    ultimately show ?thesis
      using Suc.prems False by (intro exI [of _ j]) simp
  qed
qed

lemma clock_within_mono:
  assumes "clock_within n fs flags ptr = Some r" and "n \<le> m"
  shows "clock_within m fs flags ptr = Some r"
  using assms
proof (induction n fs flags ptr arbitrary: m rule: clock_within.induct)
  case (1 fs flags ptr)
  then show ?case by simp
next
  case (2 n fs flags ptr)
  then obtain m' where m: "m = Suc m'" "n \<le> m'" by (cases m) auto
  show ?case
  proof (cases "frame_at fs ptr")
    case None
    with 2 m show ?thesis by simp
  next
    case (Some pg)
    show ?thesis
    proof (cases "flags pg = Some True")
      case True
      from "2.prems"(1) Some True
      have "clock_within n fs (flags(pg \<mapsto> False)) (advance ptr (length fs)) = Some r"
        by simp
      from "2.IH" [OF Some True this m(2)] show ?thesis
        using Some True m by (simp add: fun_upd_def)
    next
      case False
      with "2.prems" Some m show ?thesis by simp
    qed
  qed
qed

lemma clock_scan:
  assumes "distinct fs" and "fs \<noteq> []" and "ptr < length fs"
  shows "\<exists>k \<le> length fs.
           (\<forall>t < k. flags (fs ! slot fs ptr t) = Some True)
           \<and> (k < length fs \<longrightarrow> flags (fs ! slot fs ptr k) \<noteq> Some True)
           \<and> clock_loop fs flags (Some ptr)
               = (Some (fs ! slot fs ptr k), clear_flags flags (inspected fs ptr k), Some (slot fs ptr (Suc k)))
           \<and> clock_within (Suc k) fs flags (Some ptr) = Some (clock_loop fs flags (Some ptr))
           \<and> clock_within k fs flags (Some ptr) = None"
proof -
  have c: "clear_flags flags (inspected fs ptr 0) = flags"
    by (rule ext) (simp add: clear_flags_def inspected_def)
  have p: "slot fs ptr 0 = ptr"
    using assms(3) by (simp add: slot_def)
  from clock_scan_from [OF assms(1,2), of 0 flags ptr] show ?thesis
    unfolding c p by auto
qed

lemma clock_select:
  assumes "algorithm s = ''clock''"
  shows "victim s i = fst (clock_loop (frames s) (referenceFlags (dataStructures s)) (clockPointer (dataStructures s)))"
    and "referenceFlags (dataStructures (after_selection s i))
           = fst (snd (clock_loop (frames s) (referenceFlags (dataStructures s)) (clockPointer (dataStructures s))))"
    and "clockPointer (dataStructures (after_selection s i))
           = snd (snd (clock_loop (frames s) (referenceFlags (dataStructures s)) (clockPointer (dataStructures s))))"
  using assms
  by (simp_all add: victim_def after_selection_def selectPageToReplace_def selectClockPage_def
      split: prod.splits)

lemma processPage_dataStructures:
  "dataStructures (processPage s p i) =
     dataStructures (updateDataStructures
       (if p \<in> set (frames s) \<or> int (length (frames s)) < numFrames s then s else after_selection s i)
       p i (p \<in> set (frames s)))"
  by (simp add: processPage_def Let_def includes_page_def case_prod_beta after_selection_def
      updateDataStructures_def)

lemma clock_pointer_update [simp]:
  "algorithm s = ''clock'' \<Longrightarrow>
     clockPointer (dataStructures (updateDataStructures s p i h)) = clockPointer (dataStructures s)"
  by (simp add: updateDataStructures_def)

lemma after_selection_algorithm [simp]: "algorithm (after_selection s i) = algorithm s"
  by (simp add: after_selection_def)

lemma clock_inv_step:
  assumes alg: "algorithm s = ''clock''" and F: "1 \<le> numFrames s" and inv: "clock_inv s"
  shows "clock_inv (processPage s p i)"
proof -
  from inv obtain ptr where ptr: "clockPointer (dataStructures s) = Some ptr"
    "ptr = 0 \<or> ptr < length (frames s)" and d: "distinct (frames s)"
    by (auto simp: clock_inv_def split: option.splits)
  have d': "distinct (frames (processPage s p i))"
    using d by (rule distinct_processPage)
  show ?thesis
  proof (cases "p \<in> set (frames s) \<or> int (length (frames s)) < numFrames s")
    case True
    then have "clockPointer (dataStructures (processPage s p i)) = Some ptr"
      using alg ptr by (simp add: processPage_dataStructures)
    moreover have "length (frames s) \<le> length (frames (processPage s p i))"
      using True by (auto simp: processPage_frames)
    ultimately show ?thesis
      using d' ptr(2) by (auto simp: clock_inv_def)
  next
    case False
    then have ne: "frames s \<noteq> []" using F by auto
    with ptr(2) have pl: "ptr < length (frames s)" by auto
    from clock_scan [OF d ne pl, of "referenceFlags (dataStructures s)"]
    obtain k where "clock_loop (frames s) (referenceFlags (dataStructures s)) (Some ptr)
        = (Some (frames s ! slot (frames s) ptr k),
           clear_flags (referenceFlags (dataStructures s)) (inspected (frames s) ptr k),
           Some (slot (frames s) ptr (Suc k)))"
      by blast
    then have "clockPointer (dataStructures (processPage s p i)) = Some (slot (frames s) ptr (Suc k))"
      using False alg ptr(1) by (simp add: processPage_dataStructures clock_select(3))
    moreover have "length (frames (processPage s p i)) = length (frames s)"
      using False by (simp add: processPage_frames)
    ultimately show ?thesis
      using d' slot_less [OF ne, of ptr "Suc k"] by (simp add: clock_inv_def)
  qed
qed

lemma clock_inv_steps:
  assumes "algorithm s = ''clock''" and "1 \<le> numFrames s" and "clock_inv s"
  shows "clock_inv (simulate_steps s n)"
  using assms by (induction n) (simp_all add: simulate_steps_Suc clock_inv_step)

lemma constructor_clock:
  assumes "constructor inp F ''clock'' = Inr s"
  shows "clock_inv s"
  using assms by (auto simp: constructor_def initializeAlgorithm_def clock_inv_def empty_dataStructures_def)

text \<open>
  C4. On a fault with full frames under the Clock algorithm (\<open>F \<ge> 1\<close>), the scan
  starts at the pointer \<open>ptr\<close>, meets \<open>k\<close> pages whose flag is set, clears them and
  moves on by one slot modulo \<open>F\<close> each time, and evicts the page of the next slot, the
  first one inspected with a clear flag (after \<open>k = F\<close> set flags this is the page it
  started from, cleared on the first pass). The pointer is left one slot past the
  victim modulo \<open>F\<close>. The loop makes exactly \<open>k + 1\<close> inspections, and \<open>k + 1 \<le> 2F\<close>.
\<close>

theorem clock_scan_evicts_first_clear_page:
  assumes "constructor referenceStringInput F ''clock'' = Inr s0"
    and "1 \<le> F"
    and "i < length (referenceString s0)"
    and "s = simulate_steps s0 i"
    and "referenceString s0 ! i \<notin> set (frames s)"
    and "int (length (frames s)) = F"
  shows "\<exists>ptr k. clockPointer (dataStructures s) = Some ptr \<and> ptr < length (frames s)
           \<and> k \<le> length (frames s)
           \<and> (\<forall>t < k. referenceFlags (dataStructures s) (frames s ! slot (frames s) ptr t) = Some True)
           \<and> (k < length (frames s) \<longrightarrow>
                referenceFlags (dataStructures s) (frames s ! slot (frames s) ptr k) \<noteq> Some True)
           \<and> victim s i = Some (frames s ! slot (frames s) ptr k)
           \<and> referenceFlags (dataStructures (after_selection s i))
               = clear_flags (referenceFlags (dataStructures s)) (inspected (frames s) ptr k)
           \<and> clockPointer (dataStructures (after_selection s i)) = Some (slot (frames s) ptr (Suc k))
           \<and> clock_within k (frames s) (referenceFlags (dataStructures s)) (Some ptr) = None
           \<and> clock_within (Suc k) (frames s) (referenceFlags (dataStructures s)) (Some ptr)
               = Some (clock_loop (frames s) (referenceFlags (dataStructures s)) (Some ptr))
           \<and> Suc k \<le> 2 * length (frames s)
           \<and> clock_within (2 * length (frames s)) (frames s) (referenceFlags (dataStructures s)) (Some ptr)
               = Some (clock_loop (frames s) (referenceFlags (dataStructures s)) (Some ptr))"
proof -
  note f = constructor_fields [OF assms(1)]
  have alg: "algorithm s = ''clock''"
    using f(6) assms(4) by simp
  have "clock_inv s"
    unfolding assms(4) using f(5,6) assms(2) constructor_clock [OF assms(1)]
    by (intro clock_inv_steps) simp_all
  then obtain ptr where ptr: "clockPointer (dataStructures s) = Some ptr"
    "ptr = 0 \<or> ptr < length (frames s)" and d: "distinct (frames s)"
    by (auto simp: clock_inv_def split: option.splits)
  have ne: "frames s \<noteq> []" using assms(2,6) by auto
  with ptr(2) have pl: "ptr < length (frames s)" by auto
  let ?fl = "referenceFlags (dataStructures s)"
  from clock_scan [OF d ne pl, of ?fl]
  obtain k where k: "k \<le> length (frames s)"
    "\<forall>t < k. ?fl (frames s ! slot (frames s) ptr t) = Some True"
    "k < length (frames s) \<longrightarrow> ?fl (frames s ! slot (frames s) ptr k) \<noteq> Some True"
    "clock_loop (frames s) ?fl (Some ptr)
      = (Some (frames s ! slot (frames s) ptr k), clear_flags ?fl (inspected (frames s) ptr k),
         Some (slot (frames s) ptr (Suc k)))"
    "clock_within (Suc k) (frames s) ?fl (Some ptr) = Some (clock_loop (frames s) ?fl (Some ptr))"
    "clock_within k (frames s) ?fl (Some ptr) = None"
    by blast
  have b: "Suc k \<le> 2 * length (frames s)"
    using k(1) ne by (cases "frames s") auto
  have w: "clock_within (2 * length (frames s)) (frames s) ?fl (Some ptr)
      = Some (clock_loop (frames s) ?fl (Some ptr))"
    using clock_within_mono [OF k(5) b] .
  have sel: "victim s i = Some (frames s ! slot (frames s) ptr k)"
    "referenceFlags (dataStructures (after_selection s i)) = clear_flags ?fl (inspected (frames s) ptr k)"
    "clockPointer (dataStructures (after_selection s i)) = Some (slot (frames s) ptr (Suc k))"
    using k(4) ptr(1) by (simp_all add: clock_select [OF alg])
  from ptr(1) pl k(1,2,3) sel k(6,5) b w show ?thesis
    by blast
qed

theorem clock_scan_evicts_first_clear_page_witness:
  "\<exists>s0 ptr k. constructor ''1,2,3,4'' 3 ''clock'' = Inr s0
      \<and> 3 < length (referenceString s0)
      \<and> frames (simulate_steps s0 3) = [Num 1, Num 2, Num 3]
      \<and> referenceString s0 ! 3 = Num 4
      \<and> clockPointer (dataStructures (simulate_steps s0 3)) = Some ptr
      \<and> k \<le> 3
      \<and> victim (simulate_steps s0 3) 3
          = Some (frames (simulate_steps s0 3) ! slot (frames (simulate_steps s0 3)) ptr k)
      \<and> clockPointer (dataStructures (after_selection (simulate_steps s0 3) 3))
          = Some (slot (frames (simulate_steps s0 3)) ptr (Suc k))
      \<and> Suc k \<le> 2 * 3
      \<and> frames (simulate_steps s0 (Suc 3)) = [Num 4, Num 2, Num 3]"
proof -
  let ?a = "projr (constructor ''1,2,3,4'' 3 ''clock'')"
  have a: "constructor ''1,2,3,4'' 3 ''clock'' = Inr ?a"
    by (simp add: constructor_def)
  have r: "referenceString ?a = [Num 1, Num 2, Num 3, Num 4]"
    by code_simp
  have fr: "frames (simulate_steps ?a 3) = [Num 1, Num 2, Num 3]"
    "frames (simulate_steps ?a (Suc 3)) = [Num 4, Num 2, Num 3]"
    by code_simp+
  have h: "3 < length (referenceString ?a)"
    "referenceString ?a ! 3 \<notin> set (frames (simulate_steps ?a 3))"
    "int (length (frames (simulate_steps ?a 3))) = 3"
    unfolding r fr by simp_all
  from clock_scan_evicts_first_clear_page [OF a _ h(1) refl h(2,3)]
  obtain ptr k where "clockPointer (dataStructures (simulate_steps ?a 3)) = Some ptr"
    "k \<le> length (frames (simulate_steps ?a 3))"
    "victim (simulate_steps ?a 3) 3
      = Some (frames (simulate_steps ?a 3) ! slot (frames (simulate_steps ?a 3)) ptr k)"
    "clockPointer (dataStructures (after_selection (simulate_steps ?a 3) 3))
      = Some (slot (frames (simulate_steps ?a 3)) ptr (Suc k))"
    "Suc k \<le> 2 * length (frames (simulate_steps ?a 3))"
    by auto
  moreover have "referenceString ?a ! 3 = Num 4"
    unfolding r by simp
  ultimately show ?thesis
    using a h(1) fr by (intro exI [of _ ?a] exI [of _ ptr] exI [of _ k]) simp
qed

subsection \<open>FIFO and LRU: the queue and the recency list\<close>

lemma last_position_snoc:
  "last_position Q (h @ [e]) = (if Q e then Some (length h) else last_position Q h)"
proof -
  have "find (\<lambda>k. Q ((h @ [e]) ! k)) (rev [0..<length h]) = find (\<lambda>k. Q (h ! k)) (rev [0..<length h])"
    by (rule find_cong) (auto simp: nth_append)
  then show ?thesis by (simp add: last_position_def)
qed

lemma last_position_less:
  assumes "last_position Q h = Some a"
  shows "a < length h"
proof -
  from assms obtain i where "i < length (rev [0..<length h])" "a = rev [0..<length h] ! i"
    unfolding last_position_def find_Some_iff by blast
  then have "a \<in> set (rev [0..<length h])" by (metis nth_mem)
  then show ?thesis by simp
qed

lemma in_order_cong:
  assumes "\<forall>q \<in> set ps. pos' q = pos q"
  shows "in_order pos' ps = in_order pos ps"
proof -
  have b: "before pos' p q = before pos p q" if "p \<in> set ps" "q \<in> set ps" for p q
    using assms that by (auto simp: before_def split: option.splits)
  have "sorted_wrt (before pos') ps = sorted_wrt (before pos) ps"
    by (rule iffI; erule sorted_wrt_mono_rel [rotated]) (simp_all add: b)
  moreover have "list_all (\<lambda>p. pos' p \<noteq> None) ps = list_all (\<lambda>p. pos p \<noteq> None) ps"
    using assms by (auto simp: list_all_iff)
  ultimately show ?thesis by (simp add: in_order_def)
qed

lemma in_order_filter: "in_order pos ps \<Longrightarrow> in_order pos (filter R ps)"
  by (auto simp: in_order_def list_all_iff sorted_wrt_filter)

lemma in_order_tl: "in_order pos ps \<Longrightarrow> in_order pos (tl ps)"
  by (cases ps) (auto simp: in_order_def)

lemma in_order_snoc:
  assumes "in_order pos ps" and "pos p = Some n" and "\<forall>q \<in> set ps. \<forall>a. pos q = Some a \<longrightarrow> a < n"
  shows "in_order pos (ps @ [p])"
  using assms by (auto simp: in_order_def list_all_iff sorted_wrt_append before_def split: option.splits)

lemma replace_resident:
  assumes "distinct fs" and "v \<in> set fs" and "v \<noteq> NaN"
  shows "\<exists>k < length fs. fs ! k = v \<and> assign_index fs (indexOf fs (Some v)) p = fs[k := p]
           \<and> set (fs[k := p]) = insert p (set fs - {v})"
proof -
  from assms(2) obtain k where k: "k < length fs" "fs ! k = v"
    by (auto simp: in_set_conv_nth)
  have "\<forall>j < k. fs ! j \<noteq> v"
    using assms(1) k by (auto simp: nth_eq_iff_index_eq)
  from indexOf_from_first [OF assms(3) k this, of 0]
  have "assign_index fs (indexOf fs (Some v)) p = fs[k := p]"
    by (simp add: assign_index_def)
  moreover have "set (fs[k := p]) = insert p (set fs - {v})"
    using set_update_distinct [OF assms(1) k(1), of p] k(2) by simp
  ultimately show ?thesis using k by blast
qed

lemma distinct_hd_tl:
  assumes "xs \<noteq> []" and "distinct xs"
  shows "set (tl xs) = set xs - {hd xs}" and "distinct (tl xs)"
proof -
  from assms(1) obtain x ys where "xs = x # ys" by (cases xs) auto
  with assms(2) show "set (tl xs) = set xs - {hd xs}" and "distinct (tl xs)" by auto
qed

lemma shift_nonempty: "q \<noteq> [] \<Longrightarrow> shift q = (Some (hd q), tl q)"
  by (cases q) simp_all

lemma fifo_select:
  assumes "algorithm s = ''fifo''"
  shows "victim s i = fst (shift (queue (dataStructures s)))"
    and "queue (dataStructures (after_selection s i)) = snd (shift (queue (dataStructures s)))"
  using assms
  by (simp_all add: victim_def after_selection_def selectPageToReplace_def split: prod.splits)

lemma fifo_update:
  "algorithm s = ''fifo'' \<Longrightarrow>
     queue (dataStructures (updateDataStructures s p i h))
       = (if h then queue (dataStructures s) else queue (dataStructures s) @ [p])"
  by (simp add: updateDataStructures_def)

lemma lru_select:
  assumes "algorithm s = ''lru''"
  shows "victim s i = fst (shift (recencyList (dataStructures s)))"
    and "recencyList (dataStructures (after_selection s i)) = snd (shift (recencyList (dataStructures s)))"
  using assms
  by (simp_all add: victim_def after_selection_def selectPageToReplace_def split: prod.splits)

lemma lru_update:
  "algorithm s = ''lru'' \<Longrightarrow>
     recencyList (dataStructures (updateDataStructures s p i h))
       = filter (\<lambda>q. \<not> strict_eq q p) (recencyList (dataStructures s)) @ [p]"
  by (simp add: updateDataStructures_def)

lemma loaded_at_step:
  "loaded_at (history (processPage s p i)) q =
     (if q = p \<and> p \<notin> set (frames s) then Some (length (history s)) else loaded_at (history s) q)"
  by (auto simp: loaded_at_def processPage_history last_position_snoc)

lemma accessed_at_step:
  "accessed_at (history (processPage s p i)) q =
     (if q = p then Some (length (history s)) else accessed_at (history s) q)"
  by (auto simp: accessed_at_def processPage_history last_position_snoc)

lemma fifo_inv_step:
  assumes alg: "algorithm s = ''fifo''" and F: "1 \<le> numFrames s" and inv: "fifo_inv s"
    and p: "p \<noteq> NaN"
  shows "fifo_inv (processPage s p i)"
proof -
  let ?q = "queue (dataStructures s)" and ?s' = "processPage s p i"
  from inv have q: "set ?q = set (frames s)" "distinct ?q" and d: "distinct (frames s)"
    and nan: "NaN \<notin> set (frames s)" and ord: "in_order (loaded_at (history s)) ?q"
    by (simp_all add: fifo_inv_def)
  have d': "distinct (frames ?s')" using d by (rule distinct_processPage)
  have nan': "NaN \<notin> set (frames ?s')"
    using set_processPage [of s p i] nan p by auto
  show ?thesis
  proof (cases "p \<in> set (frames s)")
    case True
    then have "queue (dataStructures ?s') = ?q" "frames ?s' = frames s"
      using alg by (simp_all add: processPage_dataStructures fifo_update processPage_frames)
    moreover have "in_order (loaded_at (history ?s')) ?q = in_order (loaded_at (history s)) ?q"
      using True by (intro in_order_cong) (simp add: loaded_at_step)
    ultimately show ?thesis
      using inv by (simp add: fifo_inv_def)
  next
    case False
    have snoc: "in_order (loaded_at (history ?s')) (b @ [p])"
      if "in_order (loaded_at (history s)) b" "set b \<subseteq> set ?q" for b
    proof (rule in_order_snoc)
      have same: "\<forall>x \<in> set b. loaded_at (history ?s') x = loaded_at (history s) x"
        using that(2) q(1) False by (auto simp: loaded_at_step)
      then show "in_order (loaded_at (history ?s')) b"
        using that(1) in_order_cong by blast
      show "loaded_at (history ?s') p = Some (length (history s))"
        using False by (simp add: loaded_at_step)
      show "\<forall>x \<in> set b. \<forall>a. loaded_at (history ?s') x = Some a \<longrightarrow> a < length (history s)"
        using same last_position_less by (auto simp: loaded_at_def)
    qed
    show ?thesis
    proof (cases "int (length (frames s)) < numFrames s")
      case True
      then have "queue (dataStructures ?s') = ?q @ [p]" "frames ?s' = frames s @ [p]"
        using alg False by (simp_all add: processPage_dataStructures fifo_update processPage_frames)
      with q d' nan' False snoc [OF ord] show ?thesis
        by (simp add: fifo_inv_def)
    next
      case full: False
      then have "frames s \<noteq> []" using F by auto
      with q(1) have ne: "?q \<noteq> []" by auto
      then have hd: "hd ?q \<in> set (frames s)" "hd ?q \<noteq> NaN"
        using q(1) nan by (metis list.set_sel(1))+
      have v: "victim s i = Some (hd ?q)"
        and q': "queue (dataStructures ?s') = tl ?q @ [p]"
        using alg False full shift_nonempty [OF ne]
        by (simp_all add: processPage_dataStructures fifo_update fifo_select)
      from replace_resident [OF d hd, of p]
      obtain k where k: "assign_index (frames s) (indexOf (frames s) (Some (hd ?q))) p = (frames s)[k := p]"
        "set ((frames s)[k := p]) = insert p (set (frames s) - {hd ?q})"
        by blast
      have "frames ?s' = (frames s)[k := p]"
        using False full v k(1) by (simp add: processPage_frames)
      then have fr: "set (frames ?s') = insert p (set (frames s) - {hd ?q})"
        using k(2) by simp
      have tl: "set (tl ?q) = set ?q - {hd ?q}" "distinct (tl ?q)"
        using distinct_hd_tl [OF ne q(2)] by simp_all
      have "p \<notin> set (tl ?q)" using False q(1) tl(1) by auto
      moreover have "in_order (loaded_at (history ?s')) (tl ?q @ [p])"
        using snoc [OF in_order_tl [OF ord]] tl(1) by auto
      ultimately show ?thesis
        using q' fr tl q(1) d' nan' by (simp add: fifo_inv_def)
    qed
  qed
qed

lemma lru_inv_step:
  assumes alg: "algorithm s = ''lru''" and F: "1 \<le> numFrames s" and inv: "lru_inv s"
    and p: "p \<noteq> NaN"
  shows "lru_inv (processPage s p i)"
proof -
  let ?l = "recencyList (dataStructures s)" and ?s' = "processPage s p i"
  from inv have l: "set ?l = set (frames s)" "distinct ?l" and d: "distinct (frames s)"
    and nan: "NaN \<notin> set (frames s)" and ord: "in_order (accessed_at (history s)) ?l"
    by (simp_all add: lru_inv_def)
  have d': "distinct (frames ?s')" using d by (rule distinct_processPage)
  have nan': "NaN \<notin> set (frames ?s')"
    using set_processPage [of s p i] nan p by auto
  have neq: "(\<lambda>q. \<not> strict_eq q p) = (\<lambda>q. q \<noteq> p)"
    using p by (auto simp: strict_eq_def)
  have snoc: "in_order (accessed_at (history ?s')) (filter (\<lambda>q. q \<noteq> p) b @ [p])"
    if "in_order (accessed_at (history s)) b" for b
  proof (rule in_order_snoc)
    have same: "\<forall>x \<in> set (filter (\<lambda>q. q \<noteq> p) b). accessed_at (history ?s') x = accessed_at (history s) x"
      by (auto simp: accessed_at_step)
    then show "in_order (accessed_at (history ?s')) (filter (\<lambda>q. q \<noteq> p) b)"
      using in_order_filter [OF that] in_order_cong by blast
    show "accessed_at (history ?s') p = Some (length (history s))"
      by (simp add: accessed_at_step)
    show "\<forall>x \<in> set (filter (\<lambda>q. q \<noteq> p) b). \<forall>a. accessed_at (history ?s') x = Some a \<longrightarrow> a < length (history s)"
      using same last_position_less by (auto simp: accessed_at_def)
  qed
  show ?thesis
  proof (cases "p \<in> set (frames s) \<or> int (length (frames s)) < numFrames s")
    case True
    then have l': "recencyList (dataStructures ?s') = filter (\<lambda>q. q \<noteq> p) ?l @ [p]"
      using alg by (simp add: processPage_dataStructures lru_update neq)
    have "set (frames ?s') = insert p (set (frames s))"
      using True by (auto simp: processPage_frames)
    with l' l d' nan' snoc [OF ord] show ?thesis
      by (auto simp: lru_inv_def)
  next
    case False
    then have "frames s \<noteq> []" using F by auto
    with l(1) have ne: "?l \<noteq> []" by auto
    then have hd: "hd ?l \<in> set (frames s)" "hd ?l \<noteq> NaN"
      using l(1) nan by (metis list.set_sel(1))+
    have v: "victim s i = Some (hd ?l)"
      and l': "recencyList (dataStructures ?s') = filter (\<lambda>q. q \<noteq> p) (tl ?l) @ [p]"
      using alg False shift_nonempty [OF ne]
      by (simp_all add: processPage_dataStructures lru_update lru_select neq)
    from replace_resident [OF d hd, of p]
    obtain k where k: "assign_index (frames s) (indexOf (frames s) (Some (hd ?l))) p = (frames s)[k := p]"
      "set ((frames s)[k := p]) = insert p (set (frames s) - {hd ?l})"
      by blast
    have "frames ?s' = (frames s)[k := p]"
      using False v k(1) by (simp add: processPage_frames)
    then have fr: "set (frames ?s') = insert p (set (frames s) - {hd ?l})"
      using k(2) by simp
    have tl: "set (tl ?l) = set ?l - {hd ?l}" "distinct (tl ?l)"
      using distinct_hd_tl [OF ne l(2)] by simp_all
    have "in_order (accessed_at (history ?s')) (filter (\<lambda>q. q \<noteq> p) (tl ?l) @ [p])"
      using snoc [OF in_order_tl [OF ord]] .
    with l' fr tl l(1) d' nan' False show ?thesis
      by (auto simp: lru_inv_def)
  qed
qed

lemma fifo_inv_steps:
  assumes "algorithm s = ''fifo''" and "1 \<le> numFrames s" and "fifo_inv s"
    and "NaN \<notin> set (referenceString s)" and "n \<le> length (referenceString s)"
  shows "fifo_inv (simulate_steps s n)"
  using assms(5)
proof (induction n)
  case 0
  from assms(3) show ?case by simp
next
  case (Suc n)
  then have "referenceString s ! n \<noteq> NaN"
    using assms(4) by (metis Suc_le_lessD nth_mem)
  with Suc assms(1,2) show ?case
    by (simp add: simulate_steps_Suc fifo_inv_step)
qed

lemma lru_inv_steps:
  assumes "algorithm s = ''lru''" and "1 \<le> numFrames s" and "lru_inv s"
    and "NaN \<notin> set (referenceString s)" and "n \<le> length (referenceString s)"
  shows "lru_inv (simulate_steps s n)"
  using assms(5)
proof (induction n)
  case 0
  from assms(3) show ?case by simp
next
  case (Suc n)
  then have "referenceString s ! n \<noteq> NaN"
    using assms(4) by (metis Suc_le_lessD nth_mem)
  with Suc assms(1,2) show ?case
    by (simp add: simulate_steps_Suc lru_inv_step)
qed

lemma constructor_fifo:
  assumes "constructor inp F ''fifo'' = Inr s"
  shows "fifo_inv s"
  using assms
  by (auto simp: constructor_def initializeAlgorithm_def fifo_inv_def empty_dataStructures_def in_order_def)

lemma constructor_lru:
  assumes "constructor inp F ''lru'' = Inr s"
  shows "lru_inv s"
  using assms
  by (auto simp: constructor_def initializeAlgorithm_def lru_inv_def empty_dataStructures_def in_order_def)

lemma in_order_head:
  assumes "in_order pos ps" and "distinct ps" and "q \<in> set ps" and "q \<noteq> hd ps"
  shows "before pos (hd ps) q"
  using assms by (cases ps) (auto simp: in_order_def)

text \<open>
  Three runs on which the lists and the frames part. On \<open>x,1\<close> with 1 frame under FIFO
  the resident \<open>NaN\<close> is shifted off the queue but \<open>indexOf\<close> does not find it in the
  frames, so the frames stay \<open>[NaN]\<close> while the queue is \<open>[1]\<close>. On \<open>x,x\<close> with 1 frame
  under LRU the second \<open>NaN\<close> is a hit, the filter with \<open>!==\<close> removes nothing, and the
  recency list holds \<open>NaN\<close> twice. With 0 frames under FIFO no page is ever resident
  and the queue holds the last page.
\<close>

theorem queue_and_recency_list_counterexample:
  "frames (snd (simulate (projr (constructor ''x,1'' 1 ''fifo'')))) = [NaN]
   \<and> queue (dataStructures (snd (simulate (projr (constructor ''x,1'' 1 ''fifo''))))) = [Num 1]
   \<and> frames (snd (simulate (projr (constructor ''x,x'' 1 ''lru'')))) = [NaN]
   \<and> recencyList (dataStructures (snd (simulate (projr (constructor ''x,x'' 1 ''lru''))))) = [NaN, NaN]
   \<and> frames (snd (simulate (projr (constructor ''1'' 0 ''fifo'')))) = []
   \<and> queue (dataStructures (snd (simulate (projr (constructor ''1'' 0 ''fifo''))))) = [Num 1]"
  by code_simp

text \<open>
  C10, as the code has it. After every processed step of a run with \<open>F \<ge> 1\<close> on a
  reference input whose tokens are all integers: under FIFO the queue holds exactly
  the resident pages, each once, in the order in which they were loaded; under LRU the
  recency list holds exactly the resident pages, each once, in the order of their last
  access, so that the least recently accessed page is at the head.
\<close>

theorem queue_and_recency_list_hold_the_resident_pages:
  assumes "constructor referenceStringInput F algorithmInput = Inr s0"
    and "1 \<le> F"
    and "NaN \<notin> set (referenceString s0)"
    and "n \<le> length (referenceString s0)"
    and "s = simulate_steps s0 n"
  shows "(algorithmInput = ''fifo'' \<longrightarrow>
            set (queue (dataStructures s)) = set (frames s)
            \<and> distinct (queue (dataStructures s))
            \<and> in_order (loaded_at (history s)) (queue (dataStructures s)))
       \<and> (algorithmInput = ''lru'' \<longrightarrow>
            set (recencyList (dataStructures s)) = set (frames s)
            \<and> distinct (recencyList (dataStructures s))
            \<and> in_order (accessed_at (history s)) (recencyList (dataStructures s))
            \<and> (\<forall>q \<in> set (frames s). q \<noteq> hd (recencyList (dataStructures s)) \<longrightarrow>
                  before (accessed_at (history s)) (hd (recencyList (dataStructures s))) q))"
proof -
  note f = constructor_fields [OF assms(1)]
  have a: "fifo_inv s" if "algorithmInput = ''fifo''"
    unfolding assms(5)
    using that f(5,6) assms(1,2,3,4) constructor_fifo
    by (intro fifo_inv_steps) simp_all
  have b: "lru_inv s" if "algorithmInput = ''lru''"
    unfolding assms(5)
    using that f(5,6) assms(1,2,3,4) constructor_lru
    by (intro lru_inv_steps) simp_all
  have c: "before (accessed_at (history s)) (hd (recencyList (dataStructures s))) q"
    if "algorithmInput = ''lru''" "q \<in> set (frames s)" "q \<noteq> hd (recencyList (dataStructures s))" for q
    using b [OF that(1)] that(2,3) in_order_head [of "accessed_at (history s)" "recencyList (dataStructures s)" q]
    by (simp add: lru_inv_def)
  from a b c show ?thesis
    by (auto simp: fifo_inv_def lru_inv_def)
qed

theorem queue_and_recency_list_hold_the_resident_pages_witness:
  "(\<exists>s0. constructor ''7,0,1,2,0,3'' 3 ''fifo'' = Inr s0
      \<and> NaN \<notin> set (referenceString s0) \<and> 6 \<le> length (referenceString s0)
      \<and> set (queue (dataStructures (simulate_steps s0 6))) = set (frames (simulate_steps s0 6))
      \<and> distinct (queue (dataStructures (simulate_steps s0 6)))
      \<and> in_order (loaded_at (history (simulate_steps s0 6))) (queue (dataStructures (simulate_steps s0 6))))
   \<and> (\<exists>s0. constructor ''7,0,1,2,0,3'' 3 ''lru'' = Inr s0
      \<and> NaN \<notin> set (referenceString s0) \<and> 6 \<le> length (referenceString s0)
      \<and> set (recencyList (dataStructures (simulate_steps s0 6))) = set (frames (simulate_steps s0 6))
      \<and> distinct (recencyList (dataStructures (simulate_steps s0 6)))
      \<and> in_order (accessed_at (history (simulate_steps s0 6))) (recencyList (dataStructures (simulate_steps s0 6))))"
proof -
  have r: "map (\<lambda>x. parseInt (trim x)) (split_on CHR '','' ''7,0,1,2,0,3'')
      = [Num 7, Num 0, Num 1, Num 2, Num 0, Num 3]"
    by code_simp
  obtain a where a: "constructor ''7,0,1,2,0,3'' 3 ''fifo'' = Inr a"
    by (simp add: constructor_def)
  obtain b where b: "constructor ''7,0,1,2,0,3'' 3 ''lru'' = Inr b"
    by (simp add: constructor_def)
  have ra: "NaN \<notin> set (referenceString a)" "6 \<le> length (referenceString a)"
    using constructor_fields(7) [OF a] r by simp_all
  have rb: "NaN \<notin> set (referenceString b)" "6 \<le> length (referenceString b)"
    using constructor_fields(7) [OF b] r by simp_all
  from queue_and_recency_list_hold_the_resident_pages [OF a _ ra refl]
  have 1: "set (queue (dataStructures (simulate_steps a 6))) = set (frames (simulate_steps a 6))
      \<and> distinct (queue (dataStructures (simulate_steps a 6)))
      \<and> in_order (loaded_at (history (simulate_steps a 6))) (queue (dataStructures (simulate_steps a 6)))"
    by simp
  from queue_and_recency_list_hold_the_resident_pages [OF b _ rb refl]
  have 2: "set (recencyList (dataStructures (simulate_steps b 6))) = set (frames (simulate_steps b 6))
      \<and> distinct (recencyList (dataStructures (simulate_steps b 6)))
      \<and> in_order (accessed_at (history (simulate_steps b 6))) (recencyList (dataStructures (simulate_steps b 6)))"
    by simp
  from a ra 1 have "\<exists>s0. constructor ''7,0,1,2,0,3'' 3 ''fifo'' = Inr s0
      \<and> NaN \<notin> set (referenceString s0) \<and> 6 \<le> length (referenceString s0)
      \<and> set (queue (dataStructures (simulate_steps s0 6))) = set (frames (simulate_steps s0 6))
      \<and> distinct (queue (dataStructures (simulate_steps s0 6)))
      \<and> in_order (loaded_at (history (simulate_steps s0 6))) (queue (dataStructures (simulate_steps s0 6)))"
    by blast
  moreover from b rb 2 have "\<exists>s0. constructor ''7,0,1,2,0,3'' 3 ''lru'' = Inr s0
      \<and> NaN \<notin> set (referenceString s0) \<and> 6 \<le> length (referenceString s0)
      \<and> set (recencyList (dataStructures (simulate_steps s0 6))) = set (frames (simulate_steps s0 6))
      \<and> distinct (recencyList (dataStructures (simulate_steps s0 6)))
      \<and> in_order (accessed_at (history (simulate_steps s0 6))) (recencyList (dataStructures (simulate_steps s0 6)))"
    by blast
  ultimately show ?thesis by blast
qed

subsection \<open>Optimal against the other policies\<close>

inductive_cases paging_run_NilE: "paging_run F S [] n"

inductive_cases paging_run_ConsE: "paging_run F S (r # rs) n"

lemma card_swap:
  assumes "finite S" and "v \<in> S" and "x \<notin> S"
  shows "card (insert x (S - {v})) = card S"
proof -
  have "card (insert x (S - {v})) = Suc (card (S - {v}))"
    using assms(1,3) by simp
  also have "\<dots> = card S"
    using assms(1,2) by (rule card_Suc_Diff1)
  finally show ?thesis .
qed

lemma card_insert_swap:
  assumes "finite S" and "v \<in> S" and "x \<notin> S" and "y \<notin> S" and "y \<noteq> x"
  shows "card (insert y (insert x (S - {v}))) = card (insert y S)"
proof -
  have "card (insert y (insert x (S - {v}))) = Suc (card (insert x (S - {v})))"
    using assms(1,4,5) by simp
  also have "\<dots> = Suc (card S)"
    using card_swap [OF assms(1,2,3)] by simp
  also have "\<dots> = card (insert y S)"
    using assms(1,4) by simp
  finally show ?thesis .
qed

lemma paging_run_Cons_cases:
  assumes "paging_run F S (r # rs) n"
  obtains (hit) "r \<in> S" "paging_run F S rs n"
  | (load) n' where "n = Suc n'" "r \<notin> S" "int (card S) < F" "paging_run F (insert r S) rs n'"
  | (evict) v n' where "n = Suc n'" "r \<notin> S" "\<not> int (card S) < F" "v \<in> S"
      "paging_run F (insert r (S - {v})) rs n'"
  using assms by (erule_tac paging_run_ConsE) auto

text \<open>
  Two exchange arguments on full sets of resident pages. Replacing one resident page by
  another costs at most one more fault; and of two sets that differ in one page, the
  one that holds the page referenced sooner needs no more faults than the other.
\<close>

lemma swap_one_page:
  assumes "finite S" and "x \<notin> S" and "y \<notin> S" and "\<not> int (card (insert y S)) < F"
    and "paging_run F (insert y S) rs n"
  shows "\<exists>m \<le> Suc n. paging_run F (insert x S) rs m"
  using assms
proof (induction rs arbitrary: S x y n)
  case Nil
  then have "n = 0" by (auto elim: paging_run_NilE)
  then show ?case by (auto intro: paging_run.finished)
next
  case (Cons r rs)
  show ?case
  proof (cases "x = y")
    case True
    with Cons.prems(5) show ?thesis by (intro exI [of _ n]) simp
  next
    case xy: False
    have cardX: "card (insert x S) = card (insert y S)"
      using Cons.prems(1,2,3) by simp
    then have fullX: "\<not> int (card (insert x S)) < F"
      using Cons.prems(4) by simp
    from Cons.prems(5) show ?thesis
    proof (cases rule: paging_run_Cons_cases)
      case hit
      show ?thesis
      proof (cases "r = y")
        case True
        then have "r \<notin> insert x S" using xy Cons.prems(3) by auto
        moreover have "insert r (insert x S - {x}) = insert y S"
          using True Cons.prems(2) by auto
        ultimately have "paging_run F (insert x S) (r # rs) (Suc n)"
          using hit(2) fullX by (intro paging_run.evict [of r _ F x]) auto
        then show ?thesis by blast
      next
        case False
        with hit(1) have rS: "r \<in> insert x S" by auto
        from Cons.IH [OF Cons.prems(1,2,3,4) hit(2)]
        obtain m where "m \<le> Suc n" "paging_run F (insert x S) rs m" by blast
        with rS show ?thesis by (blast intro: paging_run.hit)
      qed
    next
      case load
      with Cons.prems(4) show ?thesis by simp
    next
      case (evict v n')
      note ev = evict
      show ?thesis
      proof (cases "r = x")
        case rx: True
        show ?thesis
        proof (cases "v = y")
          case True
          then have "insert r (insert y S - {v}) = insert x S"
            using rx Cons.prems(3) by auto
          with ev(5) have "paging_run F (insert x S) rs n'" by simp
          then have "paging_run F (insert x S) (r # rs) n'"
            using rx by (intro paging_run.hit) auto
          with ev(1) show ?thesis by (intro exI [of _ n']) simp
        next
          case False
          with ev(4) have vS: "v \<in> S" by auto
          let ?T = "insert x (S - {v})"
          have eq1: "insert r (insert y S - {v}) = insert y ?T"
            using rx False vS Cons.prems(2,3) by auto
          have eq2: "insert v ?T = insert x S"
            using vS by auto
          have fin: "finite ?T" using Cons.prems(1) by simp
          have vT: "v \<notin> ?T" using vS Cons.prems(2) by auto
          have yT: "y \<notin> ?T" using xy Cons.prems(3) by auto
          have "card (insert y ?T) = card (insert y S)"
            using card_insert_swap [OF Cons.prems(1) vS Cons.prems(2,3)] xy by simp
          then have full: "\<not> int (card (insert y ?T)) < F"
            using Cons.prems(4) by simp
          from Cons.IH [OF fin vT yT full] ev(5) eq1
          obtain m where "m \<le> Suc n'" "paging_run F (insert v ?T) rs m" by auto
          then have "paging_run F (insert x S) (r # rs) m"
            using rx eq2 by (intro paging_run.hit) auto
          with \<open>m \<le> Suc n'\<close> ev(1) show ?thesis by (intro exI [of _ m]) simp
        qed
      next
        case rx: False
        then have rX: "r \<notin> insert x S" using ev(2) by auto
        show ?thesis
        proof (cases "v = y")
          case True
          then have "insert r (insert y S - {v}) = insert r (insert x S - {x})"
            using Cons.prems(2,3) by auto
          with ev(5) have "paging_run F (insert r (insert x S - {x})) rs n'" by simp
          then have "paging_run F (insert x S) (r # rs) (Suc n')"
            using rX fullX by (intro paging_run.evict [of r _ F x]) auto
          with ev(1) show ?thesis by (intro exI [of _ n]) simp
        next
          case False
          with ev(4) have vS: "v \<in> S" by auto
          let ?T = "insert r (S - {v})"
          have eq1: "insert r (insert y S - {v}) = insert y ?T"
            using False vS Cons.prems(3) by auto
          have eq2: "insert r (insert x S - {v}) = insert x ?T"
            using vS Cons.prems(2) by auto
          have fin: "finite ?T" using Cons.prems(1) by simp
          have xT: "x \<notin> ?T" using rx Cons.prems(2) by auto
          have yT: "y \<notin> ?T" using ev(2) Cons.prems(3) by auto
          have rS: "r \<notin> S" "y \<noteq> r" using ev(2) by auto
          have "card (insert y ?T) = card (insert y S)"
            using card_insert_swap [OF Cons.prems(1) vS rS(1) Cons.prems(3) rS(2)] .
          then have full: "\<not> int (card (insert y ?T)) < F"
            using Cons.prems(4) by simp
          from Cons.IH [OF fin xT yT full] ev(5) eq1
          obtain m where m: "m \<le> Suc n'" "paging_run F (insert x ?T) rs m" by auto
          have "paging_run F (insert x S) (r # rs) (Suc m)"
            using rX fullX vS m(2) eq2 by (intro paging_run.evict [of r _ F v]) auto
          with m(1) ev(1) show ?thesis by (intro exI [of _ "Suc m"]) simp
        qed
      qed
    qed
  qed
qed

lemma keep_sooner_page:
  assumes "finite S" and "a \<notin> S" and "b \<notin> S" and "a \<noteq> b"
    and "\<not> int (card (insert a S)) < F"
    and "nxt b rs \<le> nxt a rs"
    and "paging_run F (insert a S) rs n"
  shows "\<exists>m \<le> n. paging_run F (insert b S) rs m"
  using assms
proof (induction rs arbitrary: S a b n)
  case Nil
  then have "n = 0" by (auto elim: paging_run_NilE)
  then show ?case by (auto intro: paging_run.finished)
next
  case (Cons r rs)
  have ra: "r \<noteq> a"
  proof
    assume "r = a"
    with Cons.prems(6) have "nxt b (r # rs) = 0" by simp
    then have "r = b" by (simp split: if_splits)
    with \<open>r = a\<close> Cons.prems(4) show False by simp
  qed
  have cardB: "card (insert b S) = card (insert a S)"
    using Cons.prems(1,2,3) by simp
  then have fullB: "\<not> int (card (insert b S)) < F"
    using Cons.prems(5) by simp
  have later: "nxt b rs \<le> nxt a rs" if "r \<noteq> b"
    using Cons.prems(6) ra that by simp
  from Cons.prems(7) show ?case
  proof (cases rule: paging_run_Cons_cases)
    case hit
    with ra have rS: "r \<in> S" by auto
    then have rb: "r \<noteq> b" using Cons.prems(3) by auto
    from Cons.IH [OF Cons.prems(1,2,3,4,5) later [OF rb] hit(2)]
    obtain m where "m \<le> n" "paging_run F (insert b S) rs m" by blast
    with rS show ?thesis by (blast intro: paging_run.hit)
  next
    case load
    with Cons.prems(5) show ?thesis by simp
  next
    case (evict v n')
    note ev = evict
    show ?thesis
    proof (cases "r = b")
      case rb: True
      show ?thesis
      proof (cases "v = a")
        case True
        then have "insert r (insert a S - {v}) = insert b S"
          using rb Cons.prems(2) by auto
        with ev(5) have "paging_run F (insert b S) rs n'" by simp
        then have "paging_run F (insert b S) (r # rs) n'"
          using rb by (intro paging_run.hit) auto
        with ev(1) show ?thesis by (intro exI [of _ n']) simp
      next
        case False
        with ev(4) have vS: "v \<in> S" by auto
        let ?T = "insert b (S - {v})"
        have eq1: "insert r (insert a S - {v}) = insert a ?T"
          using rb False vS Cons.prems(2,3) by auto
        have eq2: "insert v ?T = insert b S"
          using vS by auto
        have fin: "finite ?T" using Cons.prems(1) by simp
        have vT: "v \<notin> ?T" using vS Cons.prems(3) by auto
        have aT: "a \<notin> ?T" using Cons.prems(2,4) by auto
        have "card (insert a ?T) = card (insert a S)"
          using card_insert_swap [OF Cons.prems(1) vS Cons.prems(3,2,4)] .
        then have full: "\<not> int (card (insert a ?T)) < F"
          using Cons.prems(5) by simp
        have "paging_run F (insert a ?T) rs n'" using ev(5) eq1 by simp
        from swap_one_page [OF fin vT aT full this]
        obtain m where "m \<le> Suc n'" "paging_run F (insert v ?T) rs m" by blast
        then have "paging_run F (insert b S) (r # rs) m"
          using rb eq2 by (intro paging_run.hit) auto
        with \<open>m \<le> Suc n'\<close> ev(1) show ?thesis by (intro exI [of _ m]) simp
      qed
    next
      case rb: False
      then have rB: "r \<notin> insert b S" using ev(2) by auto
      show ?thesis
      proof (cases "v = a")
        case True
        then have "insert r (insert a S - {v}) = insert r (insert b S - {b})"
          using Cons.prems(2,3) by auto
        with ev(5) have "paging_run F (insert r (insert b S - {b})) rs n'" by simp
        then have "paging_run F (insert b S) (r # rs) (Suc n')"
          using rB fullB by (intro paging_run.evict [of r _ F b]) auto
        with ev(1) show ?thesis by (intro exI [of _ n]) simp
      next
        case False
        with ev(4) have vS: "v \<in> S" by auto
        let ?T = "insert r (S - {v})"
        have eq1: "insert r (insert a S - {v}) = insert a ?T"
          using False vS Cons.prems(2) by auto
        have eq2: "insert r (insert b S - {v}) = insert b ?T"
          using vS Cons.prems(3) by auto
        have fin: "finite ?T" using Cons.prems(1) by simp
        have aT: "a \<notin> ?T" using ra Cons.prems(2) by auto
        have bT: "b \<notin> ?T" using rb Cons.prems(3) by auto
        have rS: "r \<notin> S" "a \<noteq> r" using ev(2) by auto
        have "card (insert a ?T) = card (insert a S)"
          using card_insert_swap [OF Cons.prems(1) vS rS(1) Cons.prems(2) rS(2)] .
        then have full: "\<not> int (card (insert a ?T)) < F"
          using Cons.prems(5) by simp
        from Cons.IH [OF fin aT bT Cons.prems(4) full later [OF rb]] ev(5) eq1
        obtain m where m: "m \<le> n'" "paging_run F (insert b ?T) rs m" by auto
        have "paging_run F (insert b S) (r # rs) (Suc m)"
          using rB fullB vS m(2) eq2 by (intro paging_run.evict [of r _ F v]) auto
        with m(1) ev(1) show ?thesis by (intro exI [of _ "Suc m"]) simp
      qed
    qed
  qed
qed

lemma simulate_from_0: "simulate_from s 0 = simulate_steps s (length (referenceString s))"
  by (simp add: simulate_from_def simulate_steps_def)

lemma simulate_from_end: "length (referenceString s) \<le> i \<Longrightarrow> simulate_from s i = s"
  by (simp add: simulate_from_def)

lemma simulate_from_step:
  assumes "i < length (referenceString s)"
  shows "simulate_from s i = simulate_from (processPage s (referenceString s ! i) i) (Suc i)"
  using assms by (simp add: simulate_from_def upt_conv_Cons)

lemma find_append_None: "find P xs = None \<Longrightarrow> find P (xs @ ys) = find P ys"
  by (induction xs) (auto split: if_splits)

lemma find_map_image: "find P (map f xs) = map_option f (find (\<lambda>x. P (f x)) xs)"
  by (induction xs) auto

lemma nxt_find:
  "nxt p rs = (case find (\<lambda>d. rs ! d = p) [0..<length rs] of None \<Rightarrow> \<infinity> | Some d \<Rightarrow> enat d)"
proof (induction rs)
  case Nil
  show ?case by simp
next
  case (Cons r rs)
  have u: "[0..<length (r # rs)] = 0 # map Suc [0..<length rs]"
    by (simp add: upt_conv_Cons map_Suc_upt del: upt_Suc)
  show ?case
    unfolding u using Cons
    by (auto simp: find_map_image eSuc_enat zero_enat_def split: option.splits)
qed

lemma next_occurrence_nxt:
  "next_occurrence refs i p = enat (Suc i) + nxt p (drop (Suc i) refs)"
proof (cases "Suc i \<le> length refs")
  case False
  then have "find (\<lambda>k. i < k \<and> refs ! k = p) [0..<length refs] = None"
    by (auto simp: find_None_iff)
  with False show ?thesis
    by (simp add: next_occurrence_def)
next
  case True
  let ?rest = "drop (Suc i) refs"
  define m where "m = length refs - Suc i"
  have lr: "length ?rest = m"
    by (simp add: m_def)
  have len: "length refs = Suc i + m"
    using True by (simp add: m_def)
  have a: "[0..<Suc i + m] = [0..<Suc i] @ [Suc i..<Suc i + m]"
    by (rule upt_add_eq_append) simp
  have b: "[Suc i..<Suc i + m] = map (\<lambda>d. d + Suc i) [0..<m]"
    using map_add_upt [of "Suc i" m] by (simp add: add.commute)
  have split: "[0..<length refs] = [0..<Suc i] @ map (\<lambda>d. d + Suc i) [0..<m]"
    unfolding len a b ..
  have first: "find (\<lambda>k. i < k \<and> refs ! k = p) [0..<Suc i] = None"
    by (auto simp: find_None_iff)
  have second: "find (\<lambda>k. i < k \<and> refs ! k = p) (map (\<lambda>d. d + Suc i) [0..<m])
      = map_option (\<lambda>d. d + Suc i) (find (\<lambda>d. ?rest ! d = p) [0..<m])"
    unfolding find_map_image
    by (rule arg_cong [where f = "map_option (\<lambda>d. d + Suc i)"], rule find_cong)
      (auto simp: add.commute m_def)
  have "next_occurrence refs i p
      = (case find (\<lambda>d. ?rest ! d = p) [0..<m] of None \<Rightarrow> \<infinity> | Some d \<Rightarrow> enat (d + Suc i))"
    unfolding next_occurrence_def split find_append_None [OF first] second
    by (simp split: option.splits)
  also have "\<dots> = enat (Suc i) + nxt p ?rest"
    unfolding nxt_find lr by (simp split: option.splits)
  finally show ?thesis .
qed

lemma next_occurrence_le_iff:
  "next_occurrence refs i p \<le> next_occurrence refs i q
     \<longleftrightarrow> nxt p (drop (Suc i) refs) \<le> nxt q (drop (Suc i) refs)"
  by (simp add: next_occurrence_nxt)

lemma processPage_hit:
  assumes "p \<in> set (frames s)"
  shows "frames (processPage s p i) = frames s" "pageFaults (processPage s p i) = pageFaults s"
  using assms by (simp_all add: processPage_frames processPage_counters)

lemma processPage_load:
  assumes "p \<notin> set (frames s)" and "int (length (frames s)) < numFrames s"
  shows "frames (processPage s p i) = frames s @ [p]"
    "pageFaults (processPage s p i) = Suc (pageFaults s)"
  using assms by (simp_all add: processPage_frames processPage_counters)

lemma processPage_evict:
  assumes "p \<notin> set (frames s)" and "\<not> int (length (frames s)) < numFrames s"
    and "distinct (frames s)" and "victim s i = Some v" and "v \<in> set (frames s)" and "v \<noteq> NaN"
  shows "set (frames (processPage s p i)) = insert p (set (frames s) - {v})"
    "pageFaults (processPage s p i) = Suc (pageFaults s)"
proof -
  from replace_resident [OF assms(3,5,6), of p]
  obtain k where k: "assign_index (frames s) (indexOf (frames s) (Some v)) p = (frames s)[k := p]"
    "set ((frames s)[k := p]) = insert p (set (frames s) - {v})"
    by blast
  have "frames (processPage s p i) = (frames s)[k := p]"
    using assms(1,2,4) k(1) by (simp add: processPage_frames)
  with k(2) show "set (frames (processPage s p i)) = insert p (set (frames s) - {v})"
    by simp
  show "pageFaults (processPage s p i) = Suc (pageFaults s)"
    using assms(1) by (simp add: processPage_counters)
qed

text \<open>
  From any state of an Optimal run, the engine makes no more faults on the remaining
  references than any demand-paging run from the same resident set.
\<close>

lemma optimal_at_most_any_run:
  assumes "algorithm s = ''optimal''"
    and "futureReferences (dataStructures s) = calculateFutureReferences (referenceString s)"
    and "1 \<le> numFrames s"
    and "distinct (frames s)" and "NaN \<notin> set (frames s)" and "NaN \<notin> set (referenceString s)"
    and "i \<le> length (referenceString s)"
    and "paging_run (numFrames s) (set (frames s)) (drop i (referenceString s)) n"
  shows "pageFaults (simulate_from s i) \<le> pageFaults s + n"
  using assms
proof (induction "length (referenceString s) - i" arbitrary: s i n)
  case 0
  then show ?case by (simp add: simulate_from_end)
next
  case (Suc d)
  let ?refs = "referenceString s"
  let ?r = "?refs ! i" and ?rest = "drop (Suc i) ?refs" and ?S = "set (frames s)" and ?F = "numFrames s"
  let ?s' = "processPage s ?r i"
  from Suc.hyps(2) have i: "i < length ?refs" by simp
  then have rn: "?r \<noteq> NaN" using Suc.prems(6) by (metis nth_mem)
  have dr: "drop i ?refs = ?r # ?rest"
    using i by (simp add: Cons_nth_drop_Suc)
  have card: "card ?S = length (frames s)"
    using Suc.prems(4) by (simp add: distinct_card)
  have step: "simulate_from s i = simulate_from ?s' (Suc i)"
    using i by (rule simulate_from_step)
  have inv': "algorithm ?s' = ''optimal''"
    "futureReferences (dataStructures ?s') = calculateFutureReferences (referenceString ?s')"
    "1 \<le> numFrames ?s'" "distinct (frames ?s')" "NaN \<notin> set (frames ?s')"
    "NaN \<notin> set (referenceString ?s')" "Suc i \<le> length (referenceString ?s')"
    "d = length (referenceString ?s') - Suc i"
    using Suc.prems(1,2,3,5,6) Suc.hyps(2) i rn set_processPage [of s ?r i]
      distinct_processPage [OF Suc.prems(4), of ?r i]
    by (auto simp: optimal_dataStructures_step)
  have IH: "pageFaults (simulate_from ?s' (Suc i)) \<le> pageFaults ?s' + m"
    if "paging_run ?F (set (frames ?s')) ?rest m" for m
    using Suc.hyps(1) [OF inv'(8,1,2,3,4,5,6,7)] that by simp
  from Suc.prems(8) [unfolded dr] show ?case
  proof (cases rule: paging_run_Cons_cases)
    case hit
    with IH [of n] processPage_hit [OF hit(1), of i] show ?thesis
      unfolding step by simp
  next
    case (load n')
    then have l: "int (length (frames s)) < ?F" using card by simp
    from processPage_load [OF load(2) l, of i] load(4) IH [of n'] load(1) show ?thesis
      unfolding step by simp
  next
    case (evict v n')
    then have full: "\<not> int (length (frames s)) < ?F" using card by simp
    have ne: "frames s \<noteq> []" using evict(4) by auto
    from optimal_replacement [OF Suc.prems(1,2) ne Suc.prems(5), of i ?r]
    obtain k where k: "first_farthest ?refs i (frames s) k" "victim s i = Some (frames s ! k)"
      by blast
    let ?w = "frames s ! k"
    from k(1) have kl: "k < length (frames s)" by (simp add: first_farthest_iff)
    then have wS: "?w \<in> ?S" by simp
    with Suc.prems(5) have wn: "?w \<noteq> NaN" by auto
    from processPage_evict [OF evict(2) full Suc.prems(4) k(2) wS wn]
    have fr: "set (frames ?s') = insert ?r (?S - {?w})" and pf: "pageFaults ?s' = Suc (pageFaults s)"
      by simp_all
    have "\<exists>m \<le> n'. paging_run ?F (insert ?r (?S - {?w})) ?rest m"
    proof (cases "v = ?w")
      case True
      with evict(5) show ?thesis by (intro exI [of _ n']) simp
    next
      case False
      let ?T = "insert ?r (?S - {v, ?w})"
      have e1: "insert ?r (?S - {v}) = insert ?w ?T"
        using wS False by auto
      have e2: "insert ?r (?S - {?w}) = insert v ?T"
        using evict(4) False by auto
      have fin: "finite ?T" by simp
      have wT: "?w \<notin> ?T" using wS evict(2) by auto
      have vT: "v \<notin> ?T" using evict(2,4) by auto
      have "card (insert ?r (?S - {v})) = card ?S"
        using card_swap [of ?S v ?r] evict(2,4) by simp
      then have fl: "\<not> int (card (insert ?w ?T)) < ?F"
        using evict(3) e1 by simp
      obtain j where j: "j < length (frames s)" "frames s ! j = v"
        using evict(4) by (auto simp: in_set_conv_nth)
      with k(1) have "next_occurrence ?refs i v \<le> next_occurrence ?refs i ?w"
        by (auto simp: first_farthest_iff)
      then have nx: "nxt v ?rest \<le> nxt ?w ?rest"
        by (simp add: next_occurrence_le_iff)
      have run: "paging_run ?F (insert ?w ?T) ?rest n'"
        using evict(5) e1 by simp
      from keep_sooner_page [OF fin wT vT _ fl nx run] False e2 show ?thesis
        by auto
    qed
    then obtain m where m: "m \<le> n'" "paging_run ?F (set (frames ?s')) ?rest m"
      using fr by auto
    from IH [OF m(2)] m(1) pf evict(1) show ?thesis
      unfolding step by simp
  qed
qed

lemma demand_inv_step:
  assumes "demand_inv s" and "p \<noteq> NaN"
  shows "demand_inv (processPage s p i)"
proof -
  from assms(1) have F: "1 \<le> numFrames s" and d: "distinct (frames s)" and n: "NaN \<notin> set (frames s)"
    by (simp_all add: demand_inv_def)
  have "NaN \<notin> set (frames (processPage s p i))"
    using set_processPage [of s p i] n assms(2) by auto
  moreover have "distinct (frames (processPage s p i))"
    using d by (rule distinct_processPage)
  moreover from assms(1)
  consider "algorithm s = ''fifo''" "fifo_inv s" | "algorithm s = ''lru''" "lru_inv s"
    | "algorithm s = ''clock''" "clock_inv s"
    by (auto simp: demand_inv_def)
  then have "algorithm s = ''fifo'' \<and> fifo_inv (processPage s p i)
      \<or> algorithm s = ''lru'' \<and> lru_inv (processPage s p i)
      \<or> algorithm s = ''clock'' \<and> clock_inv (processPage s p i)"
  proof cases
    case 1
    then show ?thesis using fifo_inv_step [OF 1(1) F 1(2) assms(2)] by simp
  next
    case 2
    then show ?thesis using lru_inv_step [OF 2(1) F 2(2) assms(2)] by simp
  next
    case 3
    then show ?thesis using clock_inv_step [OF 3(1) F 3(2)] by simp
  qed
  ultimately show ?thesis
    using F by (simp add: demand_inv_def)
qed

lemma demand_victim:
  assumes "demand_inv s" and "\<not> int (length (frames s)) < numFrames s"
  shows "\<exists>v \<in> set (frames s). victim s i = Some v"
proof -
  from assms have ne: "frames s \<noteq> []" and d: "distinct (frames s)"
    by (auto simp: demand_inv_def)
  from assms(1)
  consider "algorithm s = ''fifo''" "fifo_inv s" | "algorithm s = ''lru''" "lru_inv s"
    | "algorithm s = ''clock''" "clock_inv s"
    by (auto simp: demand_inv_def)
  then show ?thesis
  proof cases
    case 1
    then have q: "set (queue (dataStructures s)) = set (frames s)"
      by (simp add: fifo_inv_def)
    with ne have "queue (dataStructures s) \<noteq> []" by auto
    then have "victim s i = Some (hd (queue (dataStructures s)))"
      "hd (queue (dataStructures s)) \<in> set (queue (dataStructures s))"
      using 1(1) by (simp_all add: fifo_select shift_nonempty)
    with q show ?thesis by auto
  next
    case 2
    then have q: "set (recencyList (dataStructures s)) = set (frames s)"
      by (simp add: lru_inv_def)
    with ne have "recencyList (dataStructures s) \<noteq> []" by auto
    then have "victim s i = Some (hd (recencyList (dataStructures s)))"
      "hd (recencyList (dataStructures s)) \<in> set (recencyList (dataStructures s))"
      using 2(1) by (simp_all add: lru_select shift_nonempty)
    with q show ?thesis by auto
  next
    case 3
    then obtain ptr where ptr: "clockPointer (dataStructures s) = Some ptr"
      "ptr = 0 \<or> ptr < length (frames s)"
      by (auto simp: clock_inv_def split: option.splits)
    with ne have pl: "ptr < length (frames s)" by auto
    from clock_scan [OF d ne pl, of "referenceFlags (dataStructures s)"]
    obtain k where "clock_loop (frames s) (referenceFlags (dataStructures s)) (Some ptr)
        = (Some (frames s ! slot (frames s) ptr k),
           clear_flags (referenceFlags (dataStructures s)) (inspected (frames s) ptr k),
           Some (slot (frames s) ptr (Suc k)))"
      by blast
    then have "victim s i = Some (frames s ! slot (frames s) ptr k)"
      using 3(1) ptr(1) by (simp add: clock_select(1))
    moreover have "frames s ! slot (frames s) ptr k \<in> set (frames s)"
      using slot_less [OF ne] by simp
    ultimately show ?thesis by blast
  qed
qed

text \<open>FIFO, LRU and Clock make demand-paging runs.\<close>

lemma policy_is_paging_run:
  assumes "demand_inv s" and "NaN \<notin> set (referenceString s)" and "i \<le> length (referenceString s)"
  shows "\<exists>n. paging_run (numFrames s) (set (frames s)) (drop i (referenceString s)) n
           \<and> pageFaults (simulate_from s i) = pageFaults s + n"
  using assms
proof (induction "length (referenceString s) - i" arbitrary: s i)
  case 0
  then show ?case by (auto simp: simulate_from_end intro: paging_run.finished)
next
  case (Suc d)
  let ?refs = "referenceString s"
  let ?r = "?refs ! i" and ?rest = "drop (Suc i) ?refs" and ?S = "set (frames s)" and ?F = "numFrames s"
  let ?s' = "processPage s ?r i"
  from Suc.hyps(2) have i: "i < length ?refs" by simp
  then have rn: "?r \<noteq> NaN" using Suc.prems(2) by (metis nth_mem)
  have dr: "drop i ?refs = ?r # ?rest"
    using i by (simp add: Cons_nth_drop_Suc)
  from Suc.prems(1) have dist: "distinct (frames s)" and nan: "NaN \<notin> set (frames s)"
    by (simp_all add: demand_inv_def)
  have card: "card ?S = length (frames s)"
    using dist by (simp add: distinct_card)
  have step: "simulate_from s i = simulate_from ?s' (Suc i)"
    using i by (rule simulate_from_step)
  have "d = length (referenceString ?s') - Suc i" "NaN \<notin> set (referenceString ?s')"
    "Suc i \<le> length (referenceString ?s')"
    using Suc.hyps(2) Suc.prems(2) i by simp_all
  from Suc.hyps(1) [OF this(1) demand_inv_step [OF Suc.prems(1) rn] this(2,3)]
  obtain n where n: "paging_run ?F (set (frames ?s')) ?rest n"
    "pageFaults (simulate_from ?s' (Suc i)) = pageFaults ?s' + n"
    by auto
  consider (hit) "?r \<in> ?S" | (load) "?r \<notin> ?S" "int (length (frames s)) < ?F"
    | (evict) "?r \<notin> ?S" "\<not> int (length (frames s)) < ?F"
    by blast
  then show ?case
  proof cases
    case hit
    from processPage_hit [OF hit, of i] n have "paging_run ?F ?S (?r # ?rest) n"
      "pageFaults (simulate_from s i) = pageFaults s + n"
      unfolding step using hit by (auto intro: paging_run.hit)
    then show ?thesis unfolding dr by blast
  next
    case load
    from processPage_load [OF load, of i] n have "paging_run ?F ?S (?r # ?rest) (Suc n)"
      "pageFaults (simulate_from s i) = pageFaults s + Suc n"
      unfolding step using load card by (auto intro: paging_run.load)
    then show ?thesis unfolding dr by blast
  next
    case evict
    from demand_victim [OF Suc.prems(1) evict(2), of i]
    obtain v where v: "v \<in> ?S" "victim s i = Some v" by blast
    with nan have vn: "v \<noteq> NaN" by auto
    from processPage_evict [OF evict dist v(2,1) vn] n
    have "paging_run ?F (insert ?r (?S - {v})) ?rest n"
      "pageFaults (simulate_from s i) = pageFaults s + Suc n"
      unfolding step by simp_all
    moreover have "\<not> int (card ?S) < ?F" using evict(2) card by simp
    ultimately have "paging_run ?F ?S (?r # ?rest) (Suc n)"
      "pageFaults (simulate_from s i) = pageFaults s + Suc n"
      using evict(1) v(1) by (auto intro: paging_run.evict)
    then show ?thesis unfolding dr by blast
  qed
qed

text \<open>
  On \<open>x,1,2,2,2\<close> with 2 frames the first reference is \<open>NaN\<close>. Optimal selects it at
  every later fault and never replaces it, so page 2 faults three times: 5 faults.
  FIFO, LRU and Clock select \<open>NaN\<close> once, then replace page 1: 4 faults.
\<close>

theorem optimal_more_faults_counterexample:
  "pageFaults (snd (simulate (projr (constructor ''x,1,2,2,2'' 2 ''optimal'')))) = 5
   \<and> pageFaults (snd (simulate (projr (constructor ''x,1,2,2,2'' 2 ''fifo'')))) = 4
   \<and> pageFaults (snd (simulate (projr (constructor ''x,1,2,2,2'' 2 ''lru'')))) = 4
   \<and> pageFaults (snd (simulate (projr (constructor ''x,1,2,2,2'' 2 ''clock'')))) = 4"
  by code_simp

text \<open>
  C6, as the code has it. For every reference input whose tokens are all integers and
  every frame count \<open>F \<ge> 1\<close>, the Optimal run has at most as many page faults as the
  FIFO run, the LRU run and the Clock run on the same input with the same frame count.
\<close>

theorem optimal_has_fewest_faults:
  assumes "constructor referenceStringInput F ''optimal'' = Inr s_opt"
    and "constructor referenceStringInput F algorithmInput = Inr s_alg"
    and "algorithmInput = ''fifo'' \<or> algorithmInput = ''lru'' \<or> algorithmInput = ''clock''"
    and "1 \<le> F"
    and "NaN \<notin> set (referenceString s_opt)"
  shows "pageFaults (snd (simulate s_opt)) \<le> pageFaults (snd (simulate s_alg))"
proof -
  note o = constructor_fields [OF assms(1)] and a = constructor_fields [OF assms(2)]
  have refs: "referenceString s_alg = referenceString s_opt"
    using o(7) a(7) by simp
  have "fifo_inv s_alg" if "algorithmInput = ''fifo''"
    using constructor_fifo assms(2) that by blast
  moreover have "lru_inv s_alg" if "algorithmInput = ''lru''"
    using constructor_lru assms(2) that by blast
  moreover have "clock_inv s_alg" if "algorithmInput = ''clock''"
    using constructor_clock assms(2) that by blast
  ultimately have inv: "demand_inv s_alg"
    using assms(3,4) a(1,5,6) by (auto simp: demand_inv_def)
  from policy_is_paging_run [OF inv, of 0] assms(5) refs a(1,2,5)
  obtain n where n: "paging_run F {} (referenceString s_opt) n"
    "pageFaults (simulate_from s_alg 0) = n"
    by auto
  have "pageFaults (simulate_from s_opt 0) \<le> pageFaults s_opt + n"
    using o(1,5,6) assms(4,5) constructor_optimal [OF assms(1)] n(1)
    by (intro optimal_at_most_any_run) simp_all
  with n(2) o(2) show ?thesis
    by (simp add: simulate_def Let_def simulate_from_0)
qed

theorem optimal_has_fewest_faults_witness:
  "\<exists>s_opt s_alg. constructor ''1,2,3,1,4,2'' 2 ''optimal'' = Inr s_opt
      \<and> constructor ''1,2,3,1,4,2'' 2 ''lru'' = Inr s_alg
      \<and> NaN \<notin> set (referenceString s_opt)
      \<and> pageFaults (snd (simulate s_opt)) \<le> pageFaults (snd (simulate s_alg))
      \<and> pageFaults (snd (simulate s_opt)) = 5
      \<and> pageFaults (snd (simulate s_alg)) = 6"
proof -
  let ?o = "projr (constructor ''1,2,3,1,4,2'' 2 ''optimal'')"
  let ?a = "projr (constructor ''1,2,3,1,4,2'' 2 ''lru'')"
  have o: "constructor ''1,2,3,1,4,2'' 2 ''optimal'' = Inr ?o"
    and a: "constructor ''1,2,3,1,4,2'' 2 ''lru'' = Inr ?a"
    by (simp_all add: constructor_def)
  have r: "referenceString ?o = [Num 1, Num 2, Num 3, Num 1, Num 4, Num 2]"
    by code_simp
  then have n: "NaN \<notin> set (referenceString ?o)" by simp
  have v: "pageFaults (snd (simulate ?o)) = 5" "pageFaults (snd (simulate ?a)) = 6"
    by code_simp+
  from optimal_has_fewest_faults [OF o a _ _ n] o a n v show ?thesis
    by (intro exI [of _ ?o] exI [of _ ?a]) simp
qed

end
